theory Spec2Isabelle
  imports Main "HOL-Library.Char_ord" "HOL-Library.List_Lexorder" "HOL-Library.Product_Lexorder"
    "HOL-Library.Multiset"
begin

section \<open>Plain rewritable object storage metadata: data model\<close>

text \<open>
  The development embeds
  \<^verbatim>\<open>src/Disks/ObjectStorages/MetadataStorageFromPlainRewritableObjectStorage.cpp\<close>.
  \<^verbatim>\<open>std::string\<close> is \<^typ>\<open>string\<close> (a list of bytes). A function that can raise
  or stop the program returns \<open>error + 'a\<close>, with \<open>Inl\<close> the error.
\<close>

datatype s3_error_code = NO_SUCH_KEY | OTHER_S3_ERROR nat

datatype exception =
    LOGICAL_ERROR string
  | S3Exception s3_error_code
  | OtherException string
  | OutOfRange

text \<open>
  A raised exception reaches the caller as \<open>Raised\<close>; \<open>AssertionFailed\<close> is the end of the
  program at a failed \<^verbatim>\<open>chassert\<close>, which no handler catches.
\<close>

datatype error = Raised exception | AssertionFailed

text \<open>The constant of line 23.\<close>

definition PREFIX_PATH_FILE_NAME :: string where
  "PREFIX_PATH_FILE_NAME = ''prefix.path''"

text \<open>
  The comparison of \<^verbatim>\<open>std::filesystem::path\<close> objects on a POSIX system (no root name):
  a path without root directory comes before a path with one; then the elements of the
  relative paths are compared one by one as byte strings, the shorter sequence first.
  The elements are the file names between separators; a run of separators counts as one
  separator, and a path that ends with a separator after a file name has an empty last
  element. Two paths are equal when neither is less than the other, so \<open>/a/\<close> and
  \<open>/a//\<close> are equal paths.
\<close>

definition has_root_directory :: "string \<Rightarrow> bool" where
  "has_root_directory p \<longleftrightarrow> p \<noteq> [] \<and> hd p = CHR ''/''"

fun elements_from :: "string \<Rightarrow> string \<Rightarrow> string list" where
  "elements_from [] cur = [cur]"
| "elements_from (c # cs) cur =
     (if c = CHR ''/'' then
        (if cs \<noteq> [] \<and> hd cs = CHR ''/'' then elements_from cs cur
         else cur # elements_from cs [])
      else elements_from cs (cur @ [c]))"

definition path_elements :: "string \<Rightarrow> string list" where
  "path_elements p =
     (let relative_path = dropWhile (\<lambda>c. c = CHR ''/'') p
      in if relative_path = [] then [] else elements_from relative_path [])"

definition path_key :: "string \<Rightarrow> bool \<times> string list" where
  "path_key p = (has_root_directory p, path_elements p)"

definition path_less :: "string \<Rightarrow> string \<Rightarrow> bool" where
  "path_less p q \<longleftrightarrow> path_key p < path_key q"

definition path_equal :: "string \<Rightarrow> string \<Rightarrow> bool" where
  "path_equal p q \<longleftrightarrow> path_key p = path_key q"

text \<open>
  A path is spelled with single separators when no two separators follow each other.
\<close>

fun single_separators :: "string \<Rightarrow> bool" where
  "single_separators [] = True"
| "single_separators [c] = True"
| "single_separators (c # d # cs) \<longleftrightarrow>
     \<not> (c = CHR ''/'' \<and> d = CHR ''/'') \<and> single_separators (d # cs)"

text \<open>
  For the proofs about the order of paths: the part of a path after its leading separators,
  and a code of its bytes in which the separator comes before every other byte. On paths
  spelled with single separators the order of paths is the lexicographic order of the
  root flag and these codes.
\<close>

definition not_sep :: "char \<Rightarrow> bool" where
  "not_sep c \<longleftrightarrow> c \<noteq> CHR ''/''"

definition sep_code :: "char \<Rightarrow> nat" where
  "sep_code c = (if c = CHR ''/'' then 0 else Suc (of_char c))"

definition relative_part :: "string \<Rightarrow> string" where
  "relative_part p = dropWhile (\<lambda>c. c = CHR ''/'') p"

definition path_rank :: "string \<Rightarrow> bool \<times> nat list" where
  "path_rank p = (has_root_directory p, map sep_code (relative_part p))"

text \<open>
  The type \<^verbatim>\<open>MetadataStorageFromPlainObjectStorage::PathMap\<close> is declared in a header that
  is not part of the sources at hand. Its uses show an ordered map (\<^verbatim>\<open>lower_bound\<close>, line
  123) whose keys are path objects (\<^verbatim>\<open>it->first.string()\<close>, line 125) and whose mapped
  values are strings (line 82); its order is the comparison of paths. It is the list of its
  entries in iteration order, every key in the spelling it was inserted with;
  \<open>path_map_inv\<close> is the invariant of the container: the keys ascend strictly in the
  order of paths, so no two of them are equal paths.
\<close>

type_synonym PathMap = "(string \<times> string) list"

definition entry_key :: "string \<times> string \<Rightarrow> bool \<times> string list" where
  "entry_key e = path_key (fst e)"

definition path_map_inv :: "PathMap \<Rightarrow> bool" where
  "path_map_inv m \<longleftrightarrow> sorted (map entry_key m) \<and> distinct (map entry_key m)"

text \<open>
  \<^verbatim>\<open>std::map::emplace\<close>: the entry is inserted at its place in the order when no key of the
  map is equal to the new key; otherwise the container is left as it is. The second
  component is the flag of the returned pair (\<^verbatim>\<open>res.second\<close>), the third the mapped value
  the returned iterator points to (\<^verbatim>\<open>res.first->second\<close>).
\<close>

fun path_map_emplace :: "string \<Rightarrow> string \<Rightarrow> PathMap \<Rightarrow> PathMap \<times> bool \<times> string" where
  "path_map_emplace k v [] = ([(k, v)], True, v)"
| "path_map_emplace k v ((k', v') # rest) =
     (if path_equal k k' then ((k', v') # rest, False, v')
      else if path_less k k' then ((k, v) # (k', v') # rest, True, v)
      else (case path_map_emplace k v rest of
              (rest', inserted, mapped) \<Rightarrow> ((k', v') # rest', inserted, mapped)))"

text \<open>\<^verbatim>\<open>std::map::lower_bound\<close>: the entries from the first key not less than the argument on.\<close>

definition lower_bound :: "PathMap \<Rightarrow> string \<Rightarrow> PathMap" where
  "lower_bound m p = dropWhile (\<lambda>(k, v). path_less k p) m"

text \<open>
  \<^verbatim>\<open>chassert\<close> is a macro defined outside the sources at hand. In builds that abort on
  logical errors it stops the program when its condition is false; in the other builds it
  does nothing. The build kind is the parameter \<open>abort_on_logical_error\<close> of every function
  that contains a \<^verbatim>\<open>chassert\<close>.
\<close>

definition chassert :: "bool \<Rightarrow> bool \<Rightarrow> bool" where
  "chassert abort_on_logical_error cond \<longleftrightarrow> abort_on_logical_error \<and> \<not> cond"

section \<open>String operations of the standard library\<close>

text \<open>\<^verbatim>\<open>k.starts_with(p)\<close>.\<close>

definition starts_with :: "string \<Rightarrow> string \<Rightarrow> bool" where
  "starts_with k p \<longleftrightarrow> take (length p) k = p"

text \<open>
  \<^verbatim>\<open>path.find(c, pos)\<close>: the least index not below \<open>pos\<close> that holds \<open>c\<close>;
  \<open>None\<close> is \<^verbatim>\<open>std::string::npos\<close>.
\<close>

definition str_find :: "string \<Rightarrow> char \<Rightarrow> nat \<Rightarrow> nat option" where
  "str_find s c pos =
     (let rest = drop pos s
      in if c \<in> set rest then Some (pos + length (takeWhile (\<lambda>x. x \<noteq> c) rest)) else None)"

text \<open>\<^verbatim>\<open>path.substr(pos)\<close> raises \<^verbatim>\<open>std::out_of_range\<close> when \<open>pos\<close> exceeds the size.\<close>

definition substr_from :: "string \<Rightarrow> nat \<Rightarrow> error + string" where
  "substr_from s pos = (if pos > length s then Inl (Raised OutOfRange) else Inr (drop pos s))"

text \<open>\<^verbatim>\<open>path.substr(pos, n)\<close>, used only with \<open>pos\<close> within the string.\<close>

definition substr :: "string \<Rightarrow> nat \<Rightarrow> nat \<Rightarrow> string" where
  "substr s pos n = take n (drop pos s)"

text \<open>\<^verbatim>\<open>count(k.begin() + n, k.end(), '/')\<close>.\<close>

definition count_slashes_from :: "nat \<Rightarrow> string \<Rightarrow> nat" where
  "count_slashes_from n k = count_list (drop n k) CHR ''/''"

section \<open>The direct-children resolver\<close>

text \<open>
  \<^verbatim>\<open>remote_to_local_subdir\<close> is an unordered map from remote prefix to local subdirectory
  name; its \<^verbatim>\<open>emplace\<close> keeps the entry already there.
\<close>

type_synonym subdir_table = "string \<rightharpoonup> string"

definition table_emplace :: "subdir_table \<Rightarrow> string \<Rightarrow> string \<Rightarrow> subdir_table" where
  "table_emplace t r name = (case t r of None \<Rightarrow> t(r \<mapsto> name) | Some _ \<Rightarrow> t)"

text \<open>
  The loop of lines 123 to 135 over the entries from \<^verbatim>\<open>lower_bound(local_path)\<close> on.
  The first equation is the end of the map, \<open>break\<close> returns the table, \<open>continue\<close> goes
  on with the table unchanged.
\<close>

fun scan_prefixes :: "bool \<Rightarrow> string \<Rightarrow> PathMap \<Rightarrow> subdir_table \<Rightarrow> error + subdir_table" where
  "scan_prefixes ab local_path [] t = Inr t"
| "scan_prefixes ab local_path ((k, v) # rest) t =
     (if \<not> starts_with k local_path then Inr t
      else if count_slashes_from (length local_path) k \<noteq> 1 then scan_prefixes ab local_path rest t
      else if chassert ab (last k = CHR ''/'') then Inl AssertionFailed
      else scan_prefixes ab local_path rest
             (table_emplace t v (butlast (drop (length local_path) k))))"

definition remote_to_local_subdir :: "bool \<Rightarrow> string \<Rightarrow> PathMap \<Rightarrow> error + subdir_table" where
  "remote_to_local_subdir ab local_path local_path_prefixes =
     scan_prefixes ab local_path (lower_bound local_path_prefixes local_path) Map.empty"

text \<open>
  \<^verbatim>\<open>duplicates_filter\<close> is an unordered set of names. It is the list of its elements,
  without repetition; the order of the list stands for the unspecified iteration order of
  the container, so only the set of its elements is meaningful.
\<close>

definition filter_emplace :: "string \<Rightarrow> string list \<Rightarrow> string list" where
  "filter_emplace name names = (if name \<in> set names then names else names @ [name])"

definition skip_list :: "string set" where
  "skip_list = {PREFIX_PATH_FILE_NAME}"

text \<open>The body of the loop of lines 139 to 165 for one listed entry.\<close>

definition classify_entry ::
  "bool \<Rightarrow> string \<Rightarrow> subdir_table \<Rightarrow> string \<Rightarrow> string list \<Rightarrow> error + string list" where
  "classify_entry ab storage_key t path names =
     (if chassert ab (starts_with path storage_key) then Inl AssertionFailed
      else
        let child_pos = length storage_key in
        (case str_find path CHR ''/'' child_pos of
           None \<Rightarrow>
             (case substr_from path child_pos of
                Inl e \<Rightarrow> Inl e
              | Inr filename \<Rightarrow>
                  if filename \<in> skip_list then Inr names
                  else Inr (filter_emplace filename names))
         | Some slash_pos \<Rightarrow>
             (case t (substr path 0 slash_pos) of
                Some local_name \<Rightarrow> Inr (filter_emplace local_name names)
              | None \<Rightarrow>
                  Inr (filter_emplace (substr path child_pos (slash_pos - child_pos)) names))))"

fun classify_all ::
  "bool \<Rightarrow> string \<Rightarrow> subdir_table \<Rightarrow> string list \<Rightarrow> string list \<Rightarrow> error + string list" where
  "classify_all ab storage_key t [] names = Inr names"
| "classify_all ab storage_key t (path # remote_paths) names =
     (case classify_entry ab storage_key t path names of
        Inl e \<Rightarrow> Inl e
      | Inr names' \<Rightarrow> classify_all ab storage_key t remote_paths names')"

text \<open>
  \<^verbatim>\<open>getDirectChildrenOnRewritableDisk\<close> (lines 106 to 168). The listing is the list of the
  \<^verbatim>\<open>relative_path\<close> fields of \<^verbatim>\<open>remote_paths\<close>; the shared lock has no effect on the
  value computed.
\<close>

definition getDirectChildrenOnRewritableDisk ::
  "bool \<Rightarrow> string \<Rightarrow> string list \<Rightarrow> string \<Rightarrow> PathMap \<Rightarrow> error + string list" where
  "getDirectChildrenOnRewritableDisk ab storage_key remote_paths local_path local_path_prefixes =
     (case remote_to_local_subdir ab local_path local_path_prefixes of
        Inl e \<Rightarrow> Inl e
      | Inr t \<Rightarrow> classify_all ab storage_key t remote_paths [])"


text \<open>
  The entries the loop of lines 123 to 135 reaches before its \<^verbatim>\<open>break\<close>: those from
  \<^verbatim>\<open>lower_bound(local_path)\<close> up to the first key that does not start with
  \<open>local_path\<close>.
\<close>

definition visited_entries :: "string \<Rightarrow> PathMap \<Rightarrow> PathMap" where
  "visited_entries local_path m =
     takeWhile (\<lambda>(k, v). starts_with k local_path) (lower_bound m local_path)"

subsection \<open>The specification's reading of the resolver\<close>

text \<open>
  The names one listed entry contributes, in the words of the specification: the suffix of
  the key after the storage key is a file name when it has no separator (the marker file
  is skipped); otherwise the key up to the first separator of the suffix is looked up in
  the table, and the entry contributes the local name found there, or the part of the
  suffix before the separator when the table has no entry.
\<close>

definition spec_child_names :: "string \<Rightarrow> subdir_table \<Rightarrow> string \<Rightarrow> string set" where
  "spec_child_names storage_key t path =
     (let suffix = drop (length storage_key) path in
      if CHR ''/'' \<notin> set suffix then
        (if suffix = PREFIX_PATH_FILE_NAME then {} else {suffix})
      else
        (let remote = takeWhile (\<lambda>c. c \<noteq> CHR ''/'') suffix in
         case t (storage_key @ remote) of Some local_name \<Rightarrow> {local_name} | None \<Rightarrow> {remote}))"

text \<open>
  The entries of the Path Map that denote immediate child directories of \<open>local_path\<close>:
  the local path starts with \<open>local_path\<close> and has exactly one separator beyond its length.
  \<open>child_name\<close> is what line 134 takes as the name: the part of the key beyond
  \<open>local_path\<close> without its last character.
\<close>

definition immediate_children :: "string \<Rightarrow> PathMap \<Rightarrow> PathMap" where
  "immediate_children local_path m =
     filter (\<lambda>(k, v). starts_with k local_path \<and> count_slashes_from (length local_path) k = 1) m"

definition child_name :: "string \<Rightarrow> string \<Rightarrow> string" where
  "child_name local_path k = butlast (drop (length local_path) k)"

text \<open>The name of the first immediate child, in the order of the map, whose remote prefix is \<open>r\<close>.\<close>

definition first_child_with :: "string \<Rightarrow> PathMap \<Rightarrow> string \<Rightarrow> string option" where
  "first_child_with local_path m r =
     (case find (\<lambda>(k, v). v = r) (immediate_children local_path m) of
        None \<Rightarrow> None
      | Some (k, v) \<Rightarrow> Some (child_name local_path k))"

text \<open>
  The example of the specification, with every remote key under the storage key \<open>sk\<close> of
  the queried directory.
\<close>

definition example_path_map :: "string \<Rightarrow> PathMap" where
  "example_path_map sk = [(''/a/b/'', sk @ ''p1''), (''/a/c/'', sk @ ''p2'')]"

definition example_listing :: "string \<Rightarrow> string list" where
  "example_listing sk =
     [sk @ ''p1/file1'', sk @ ''p2/file2'', sk @ ''top.txt'', sk @ ''prefix.path'']"


text \<open>A Path Map with two immediate children of \<open>/a/\<close>, a deeper descendant and a sibling.\<close>

definition witness_path_map :: PathMap where
  "witness_path_map =
     [(''/a/b/'', ''p1''), (''/a/c/'', ''p2''), (''/a/c/d/'', ''p3''), (''/b/'', ''p4'')]"

text \<open>
  A Path Map in which the second key is spelled with a doubled separator: as a path it lies
  between the other two, and it does not start with \<open>/a/\<close>.
\<close>

definition unevenly_spelled_path_map :: PathMap where
  "unevenly_spelled_path_map =
     [(''/a/b/'', ''p1''), (''//a/c/'', ''p2''), (''/a/d/'', ''p3'')]"

section \<open>Paths of the standard library\<close>

text \<open>
  \<^verbatim>\<open>std::filesystem::path\<close> on a POSIX system, where the separator is \<open>/\<close> and a path has
  no root name. \<open>filename\<close> is the part after the last separator. \<open>parent_path\<close> is the
  path without its last component and without the separators before it; a path whose
  parent is the root directory keeps the leading separators as they are written.
\<close>

definition filename :: "string \<Rightarrow> string" where
  "filename p = rev (takeWhile (\<lambda>c. c \<noteq> CHR ''/'') (rev p))"

definition parent_path :: "string \<Rightarrow> string" where
  "parent_path p =
     (let dir = rev (dropWhile (\<lambda>c. c \<noteq> CHR ''/'') (rev p));
          stem = rev (dropWhile (\<lambda>c. c = CHR ''/'') (rev dir))
      in if stem = [] then dir else stem)"

definition has_parent_path :: "string \<Rightarrow> bool" where
  "has_parent_path p \<longleftrightarrow> parent_path p \<noteq> []"

section \<open>The marker-file loader\<close>

text \<open>
  What the code reaches of its surroundings: the value of the metric
  \<^verbatim>\<open>directory_map_size\<close> in \<^verbatim>\<open>CurrentMetrics\<close>, the messages it logs, and the requests
  it sends to the object storage. The functions below take this state and return it
  updated.
\<close>

datatype log_event =
    Debug_Loading_metadata
  | Warning_already_mapped string string string
  | Debug_Loaded_metadata nat nat

datatype storage_access = Iterate string | ReadObject string

record world =
  directory_map_size :: int
  log_events :: "log_event list"
  accesses :: "storage_access list"

text \<open>
  The object storage, as far as the code uses it: the keys \<^verbatim>\<open>iterate(root, 0)\<close> yields, in
  the order of the iterator; the outcome of \<^verbatim>\<open>readObject\<close> followed by
  \<^verbatim>\<open>readStringUntilEOF\<close> on a key, which is the content of the object or an exception;
  \<^verbatim>\<open>isWriteOnce\<close>, \<^verbatim>\<open>getName\<close> and \<^verbatim>\<open>getCommonKeyPrefix\<close>.
\<close>

datatype read_result = Body string | Throws exception

record object_storage =
  iterate :: "string \<Rightarrow> string list"
  readObject :: "string \<Rightarrow> read_result"
  isWriteOnce :: bool
  getName :: string
  getCommonKeyPrefix :: string

text \<open>
  The \<^verbatim>\<open>try\<close> block of lines 58 to 76. \<open>Inr (Some local_path)\<close> is the content read,
  \<open>Inr None\<close> the \<^verbatim>\<open>return\<close> of line 69, \<open>Inl e\<close> the exception thrown again. The handler
  of \<^verbatim>\<open>S3Exception\<close> is compiled only with \<^verbatim>\<open>USE_AWS_S3\<close>; in a build without it the
  type \<^verbatim>\<open>S3Exception\<close> does not exist, no read raises it, and every exception that can
  be raised takes the same way as here, through \<^verbatim>\<open>catch (...)\<close>.
\<close>

definition read_marker :: "object_storage \<Rightarrow> string \<Rightarrow> exception + string option" where
  "read_marker object_storage path =
     (case readObject object_storage path of
        Body local_path \<Rightarrow> Inr (Some local_path)
      | Throws e \<Rightarrow>
          (case e of
             S3Exception code \<Rightarrow> if code = NO_SUCH_KEY then Inr None else Inl e
           | _ \<Rightarrow> Inl e))"

text \<open>Lines 79 to 94: the insertion under the mutex and the warning when it did not insert.\<close>

definition insert_marker ::
  "string \<Rightarrow> string \<Rightarrow> PathMap \<times> log_event list \<Rightarrow> PathMap \<times> log_event list" where
  "insert_marker local_path remote = (\<lambda>(result, lg).
     (case path_map_emplace local_path remote result of
        (result', inserted, mapped) \<Rightarrow>
          (result', if \<not> inserted then lg @ [Warning_already_mapped local_path mapped remote]
                    else lg)))"

datatype unit_result = Finished | Threw exception | Abort

text \<open>One scheduled unit of work (lines 51 to 95) on the shared map and the surroundings.\<close>

definition run_unit ::
  "bool \<Rightarrow> object_storage \<Rightarrow> string \<Rightarrow> PathMap \<times> world \<Rightarrow> unit_result \<times> PathMap \<times> world" where
  "run_unit ab object_storage path = (\<lambda>(result, w).
     let w1 = w\<lparr>accesses := accesses w @ [ReadObject path]\<rparr> in
     (case read_marker object_storage path of
        Inl e \<Rightarrow> (Threw e, result, w1)
      | Inr None \<Rightarrow> (Finished, result, w1)
      | Inr (Some local_path) \<Rightarrow>
          if chassert ab (has_parent_path path) then (Abort, result, w1)
          else (case insert_marker local_path (parent_path path) (result, log_events w1) of
                  (result', lg) \<Rightarrow> (Finished, result', w1\<lparr>log_events := lg\<rparr>))))"

text \<open>
  Modelled from the spec: \<^verbatim>\<open>ThreadPoolCallbackRunnerLocal\<close> and its
  \<^verbatim>\<open>waitForAllToFinishAndRethrowFirstError\<close> are not part of the sources at hand. By the
  specification the scheduled units are independent and run in no defined order; the caller
  blocks until every unit has finished; then the first fatal error, if any, is raised again
  and the later ones are suppressed. The units run one after the other in the order given;
  the third argument is the first exception so far. A failed assertion ends the program
  at once.
\<close>

fun run_units ::
  "bool \<Rightarrow> object_storage \<Rightarrow> string list \<Rightarrow> exception option \<Rightarrow> PathMap \<times> world
     \<Rightarrow> bool \<times> exception option \<times> PathMap \<times> world" where
  "run_units ab object_storage [] first s = (False, first, s)"
| "run_units ab object_storage (path # paths) first s =
     (case run_unit ab object_storage path s of
        (Abort, s') \<Rightarrow> (True, first, s')
      | (Threw e, s') \<Rightarrow>
          run_units ab object_storage paths (if first = None then Some e else first) s'
      | (Finished, s') \<Rightarrow> run_units ab object_storage paths first s')"

text \<open>
  \<^verbatim>\<open>loadPathPrefixMap\<close> (lines 25 to 104). The order in which the thread pool runs the
  scheduled units is the parameter \<open>sched\<close>, which permutes the list of the scheduled
  marker keys.
\<close>

definition loadPathPrefixMap ::
  "bool \<Rightarrow> (string list \<Rightarrow> string list) \<Rightarrow> string \<Rightarrow> object_storage \<Rightarrow> world
     \<Rightarrow> (error + PathMap) \<times> world" where
  "loadPathPrefixMap ab sched root object_storage w =
     (let w0 = w\<lparr>log_events := log_events w @ [Debug_Loading_metadata]\<rparr>;
          files = iterate object_storage root;
          w1 = w0\<lparr>accesses := accesses w0 @ [Iterate root]\<rparr>;
          num_files = length files;
          scheduled = filter (\<lambda>path. filename path = PREFIX_PATH_FILE_NAME) files
      in case run_units ab object_storage (sched scheduled) None ([], w1) of
           (True, first, result, w2) \<Rightarrow> (Inl AssertionFailed, w2)
         | (False, Some e, result, w2) \<Rightarrow> (Inl (Raised e), w2)
         | (False, None, result, w2) \<Rightarrow>
             (Inr result,
              w2\<lparr>log_events := log_events w2 @ [Debug_Loaded_metadata num_files (length result)],
                 directory_map_size := directory_map_size w2 + int (length result)\<rparr>))"

section \<open>Construction and destruction\<close>

text \<open>
  The object under construction holds the Path Map; \<open>keys_generator\<close> is the common key
  prefix of the \<^verbatim>\<open>CommonPathPrefixKeyGenerator\<close> installed by lines 183 and 184.
\<close>

record metadata_storage =
  path_map :: PathMap
  keys_generator :: string

definition write_once_message :: "string \<Rightarrow> string" where
  "write_once_message name =
     ''MetadataStorageFromPlainRewritableObjectStorage is not compatible with write-once storage ''
       @ [CHR 0x27] @ name @ [CHR 0x27]"

text \<open>
  The constructor (lines 172 to 185). The member initialiser of \<^verbatim>\<open>path_map\<close> calls
  \<^verbatim>\<open>loadPathPrefixMap\<close> before the body of the constructor runs. An exception leaving the
  constructor leaves no object behind, and the destructor of the class does not run for it.
\<close>

definition MetadataStorageFromPlainRewritableObjectStorage_ctor ::
  "bool \<Rightarrow> (string list \<Rightarrow> string list) \<Rightarrow> object_storage \<Rightarrow> world
     \<Rightarrow> (error + metadata_storage) \<times> world" where
  "MetadataStorageFromPlainRewritableObjectStorage_ctor ab sched object_storage w =
     (case loadPathPrefixMap ab sched (getCommonKeyPrefix object_storage) object_storage w of
        (Inl e, w') \<Rightarrow> (Inl e, w')
      | (Inr m, w') \<Rightarrow>
          if isWriteOnce object_storage
          then (Inl (Raised (LOGICAL_ERROR (write_once_message (getName object_storage)))), w')
          else (Inr \<lparr>path_map = m, keys_generator = getCommonKeyPrefix object_storage\<rparr>, w'))"

text \<open>The destructor (lines 187 to 191).\<close>

definition MetadataStorageFromPlainRewritableObjectStorage_dtor ::
  "metadata_storage \<Rightarrow> world \<Rightarrow> world" where
  "MetadataStorageFromPlainRewritableObjectStorage_dtor this w =
     w\<lparr>directory_map_size := directory_map_size w - int (length (path_map this))\<rparr>"

subsection \<open>Notions for stating the properties of the loader\<close>

text \<open>
  The entries of a Path Map under the keys the container compares: two entries are under
  the same key exactly when their local paths are equal paths.
\<close>

definition keyed :: "PathMap \<Rightarrow> ((bool \<times> string list) \<times> (string \<times> string)) list" where
  "keyed m = map (\<lambda>e. (entry_key e, e)) m"

text \<open>The conflict warnings among the log events.\<close>

definition is_conflict_warning :: "log_event \<Rightarrow> bool" where
  "is_conflict_warning ev = (case ev of Warning_already_mapped _ _ _ \<Rightarrow> True | _ \<Rightarrow> False)"

text \<open>The insertions of a run, one after the other, on the map and the log.\<close>

definition insert_all :: "(string \<times> string) list \<Rightarrow> PathMap \<times> log_event list \<Rightarrow> PathMap \<times> log_event list" where
  "insert_all ins s = fold (\<lambda>(local_path, remote). insert_marker local_path remote) ins s"

text \<open>
  The pairs a list of marker keys gives rise to, in the order of the list: for every key
  whose object can be read, the local path read from it and the parent path of the key.
\<close>

definition insertions :: "object_storage \<Rightarrow> string list \<Rightarrow> (string \<times> string) list" where
  "insertions st ks =
     concat (map (\<lambda>k. case readObject st k of Body local_path \<Rightarrow> [(local_path, parent_path k)]
                                            | Throws e \<Rightarrow> []) ks)"

text \<open>
  The read failures of a list of marker keys other than \<open>key not found\<close>, in the order
  of the list.
\<close>

definition fatal_errors :: "object_storage \<Rightarrow> string list \<Rightarrow> exception list" where
  "fatal_errors st ks =
     concat (map (\<lambda>k. case readObject st k of Body local_path \<Rightarrow> []
                 | Throws e \<Rightarrow> if e = S3Exception NO_SUCH_KEY then [] else [e]) ks)"

text \<open>The exception the runner keeps: the one it has, else the first of the list.\<close>

definition first_error :: "exception option \<Rightarrow> exception list \<Rightarrow> exception option" where
  "first_error first es = (case first of Some e \<Rightarrow> Some e
                           | None \<Rightarrow> (case es of [] \<Rightarrow> None | e # _ \<Rightarrow> Some e))"

text \<open>The keys of the listing that \<^verbatim>\<open>loadPathPrefixMap\<close> schedules a unit for (line 48).\<close>

definition markers :: "object_storage \<Rightarrow> string \<Rightarrow> string list" where
  "markers st root = filter (\<lambda>path. filename path = PREFIX_PATH_FILE_NAME) (iterate st root)"

text \<open>
  An object storage over a list of objects: the iterator yields the keys under the root in
  the order of the list, and reading a key that is not there fails with \<open>key not found\<close>.
\<close>

definition storage_of :: "(string \<times> read_result) list \<Rightarrow> bool \<Rightarrow> object_storage" where
  "storage_of objects write_once =
     \<lparr>iterate = (\<lambda>root. filter (\<lambda>k. starts_with k root) (map fst objects)),
      readObject = (\<lambda>k. case map_of objects k of Some r \<Rightarrow> r
                          | None \<Rightarrow> Throws (S3Exception NO_SUCH_KEY)),
      isWriteOnce = write_once,
      getName = ''s3_plain_rewritable'',
      getCommonKeyPrefix = ''root/''\<rparr>"

text \<open>
  Three sets of objects: markers with distinct local paths (one of them removed while the
  load runs), markers of two replicas with the same local path, and markers whose reads
  fail.
\<close>

definition distinct_objects :: "(string \<times> read_result) list" where
  "distinct_objects =
     [(''root/x/prefix.path'', Body ''/a/''), (''root/x/data.bin'', Body ''payload''),
      (''root/y/prefix.path'', Body ''/b/''),
      (''root/z/prefix.path'', Throws (S3Exception NO_SUCH_KEY))]"

definition conflicting_objects :: "(string \<times> read_result) list" where
  "conflicting_objects =
     [(''root/x/prefix.path'', Body ''/a/''), (''root/y/prefix.path'', Body ''/a/''),
      (''root/w/prefix.path'', Body ''/'')]"

definition failing_objects :: "(string \<times> read_result) list" where
  "failing_objects =
     [(''root/x/prefix.path'', Body ''/a/''),
      (''root/y/prefix.path'', Throws (OtherException ''timeout'')),
      (''root/z/prefix.path'', Throws (S3Exception NO_SUCH_KEY)),
      (''root/w/prefix.path'', Throws (S3Exception (OTHER_S3_ERROR 1)))]"

text \<open>
  Two more sets of objects: two markers whose local paths are different strings and equal
  paths, and the same with a third marker that repeats the first local path.
\<close>

definition respelled_objects :: "(string \<times> read_result) list" where
  "respelled_objects =
     [(''root/x/prefix.path'', Body ''/a/''), (''root/y/prefix.path'', Body ''/a//'')]"

definition respelled_conflicting_objects :: "(string \<times> read_result) list" where
  "respelled_conflicting_objects =
     [(''root/x/prefix.path'', Body ''/a/''), (''root/y/prefix.path'', Body ''/a/''),
      (''root/z/prefix.path'', Body ''/a//'')]"

text \<open>The surroundings before the load.\<close>

definition world0 :: world where
  "world0 = \<lparr>directory_map_size = 0, log_events = [], accesses = []\<rparr>"

section \<open>Properties of the direct-children resolver\<close>

subsection \<open>String and container facts\<close>

lemma filter_emplace_set: "set (filter_emplace n ns) = insert n (set ns)"
  by (auto simp: filter_emplace_def)

lemma filter_emplace_distinct: "distinct ns \<Longrightarrow> distinct (filter_emplace n ns)"
  by (simp add: filter_emplace_def)

lemma starts_with_append: "starts_with path sk \<Longrightarrow> path = sk @ drop (length sk) path"
  unfolding starts_with_def by (metis append_take_drop_id)

lemma str_find_append:
  "str_find (sk @ suffix) c (length sk) =
     (if c \<in> set suffix then Some (length sk + length (takeWhile (\<lambda>x. x \<noteq> c) suffix)) else None)"
  by (simp add: str_find_def)

lemma substr_from_append: "substr_from (sk @ suffix) (length sk) = Inr suffix"
  by (simp add: substr_from_def)

lemma substr_append_0: "substr (sk @ suffix) 0 (length sk + n) = sk @ take n suffix"
  by (simp add: substr_def)

lemma substr_append_key: "substr (sk @ suffix) (length sk) n = take n suffix"
  by (simp add: substr_def)

lemma take_length_takeWhile: "take (length (takeWhile P xs)) xs = takeWhile P xs"
  by (induction xs) auto

lemma set3_rev: "{x, y, z} = {z, y, x}"
  by auto

subsection \<open>One listed entry, then the whole listing\<close>

lemma spec_child_names_append:
  "spec_child_names sk t (sk @ suffix) =
     (if CHR ''/'' \<notin> set suffix then (if suffix = PREFIX_PATH_FILE_NAME then {} else {suffix})
      else (case t (sk @ takeWhile (\<lambda>c. c \<noteq> CHR ''/'') suffix) of
              Some local_name \<Rightarrow> {local_name}
            | None \<Rightarrow> {takeWhile (\<lambda>c. c \<noteq> CHR ''/'') suffix}))"
  by (simp add: spec_child_names_def Let_def)

lemma classify_entry_spec:
  assumes "starts_with path sk"
  shows "\<exists>names'. classify_entry ab sk t path names = Inr names'
          \<and> set names' = set names \<union> spec_child_names sk t path
          \<and> (distinct names \<longrightarrow> distinct names')"
proof -
  obtain suffix where p: "path = sk @ suffix"
    using starts_with_append[OF assms] by blast
  have ca: "\<not> chassert ab (starts_with path sk)"
    using assms by (simp add: chassert_def)
  show ?thesis
  proof (cases "CHR ''/'' \<in> set suffix")
    case False
    have ce: "classify_entry ab sk t path names =
        (if suffix \<in> skip_list then Inr names else Inr (filter_emplace suffix names))"
      using ca False unfolding classify_entry_def p
      by (simp add: Let_def str_find_append substr_from_append)
    have sp: "spec_child_names sk t path = (if suffix \<in> skip_list then {} else {suffix})"
      using False unfolding p spec_child_names_append by (simp add: skip_list_def)
    show ?thesis unfolding ce sp
      by (simp add: filter_emplace_set filter_emplace_distinct)
  next
    case True
    define remote where "remote = takeWhile (\<lambda>c. c \<noteq> CHR ''/'') suffix"
    have ce: "classify_entry ab sk t path names =
        (case t (sk @ remote) of Some local_name \<Rightarrow> Inr (filter_emplace local_name names)
          | None \<Rightarrow> Inr (filter_emplace remote names))"
      using ca True unfolding classify_entry_def p remote_def
      by (simp add: Let_def str_find_append substr_append_0 substr_append_key
          take_length_takeWhile cong: option.case_cong)
    have sp: "spec_child_names sk t path =
        (case t (sk @ remote) of Some local_name \<Rightarrow> {local_name} | None \<Rightarrow> {remote})"
      using True unfolding p spec_child_names_append remote_def by simp
    show ?thesis unfolding ce sp
      by (simp add: filter_emplace_set filter_emplace_distinct split: option.split)
  qed
qed

lemma classify_all_spec:
  assumes "\<forall>p \<in> set ps. starts_with p sk"
  shows "\<exists>names'. classify_all ab sk t ps names = Inr names'
          \<and> set names' = set names \<union> (\<Union>p \<in> set ps. spec_child_names sk t p)
          \<and> (distinct names \<longrightarrow> distinct names')"
  using assms
proof (induction ps arbitrary: names)
  case Nil
  then show ?case by simp
next
  case (Cons p ps)
  from Cons.prems have sp: "starts_with p sk" by simp
  from classify_entry_spec[OF sp, of ab t names] obtain n1 where
    n1: "classify_entry ab sk t p names = Inr n1"
        "set n1 = set names \<union> spec_child_names sk t p"
        "distinct names \<longrightarrow> distinct n1" by blast
  from Cons.IH[of n1] Cons.prems obtain n2 where
    n2: "classify_all ab sk t ps n1 = Inr n2"
        "set n2 = set n1 \<union> (\<Union>p \<in> set ps. spec_child_names sk t p)"
        "distinct n1 \<longrightarrow> distinct n2" by auto
  show ?case using n1 n2 by auto
qed

lemma direct_children_spec:
  assumes "remote_to_local_subdir ab lp pm = Inr t"
    and "\<forall>p \<in> set ps. starts_with p sk"
  shows "\<exists>names. getDirectChildrenOnRewritableDisk ab sk ps lp pm = Inr names
          \<and> distinct names
          \<and> set names = (\<Union>p \<in> set ps. spec_child_names sk t p)"
  using classify_all_spec[OF assms(2), of ab t "[]"] assms(1)
  by (auto simp: getDirectChildrenOnRewritableDisk_def)

lemma direct_children_set:
  assumes "remote_to_local_subdir ab lp pm = Inr t"
    and "\<forall>p \<in> set ps. starts_with p sk"
  shows "map_sum id set (getDirectChildrenOnRewritableDisk ab sk ps lp pm)
          = Inr (\<Union>p \<in> set ps. spec_child_names sk t p)"
  using direct_children_spec[OF assms] by auto

subsection \<open>The example of the specification\<close>

lemma example_keys_not_less:
  "\<not> path_less ''/a/b/'' ''/a/'' \<and> \<not> path_less ''/a/c/'' ''/a/''"
  by code_simp

lemma example_table:
  "remote_to_local_subdir ab ''/a/'' (example_path_map sk)
     = Inr [sk @ ''p1'' \<mapsto> ''b'', sk @ ''p2'' \<mapsto> ''c'']"
  apply (simp add: remote_to_local_subdir_def lower_bound_def example_path_map_def
      example_keys_not_less)
  apply (simp add: starts_with_def count_slashes_from_def chassert_def table_emplace_def)
  done

lemma example_listing_under_key: "\<forall>p \<in> set (example_listing sk). starts_with p sk"
  by (simp add: example_listing_def starts_with_def)

lemma example_children:
  "map_sum id set (getDirectChildrenOnRewritableDisk ab sk (example_listing sk) ''/a/''
      (example_path_map sk)) = Inr {''b'', ''c'', ''top.txt''}"
proof -
  let ?t = "[sk @ ''p1'' \<mapsto> ''b'', sk @ ''p2'' \<mapsto> ''c'']"
  have 1: "spec_child_names sk ?t (sk @ ''p1/file1'') = {''b''}"
    unfolding spec_child_names_append by simp
  have 2: "spec_child_names sk ?t (sk @ ''p2/file2'') = {''c''}"
    unfolding spec_child_names_append by simp
  have 3: "spec_child_names sk ?t (sk @ ''top.txt'') = {''top.txt''}"
    unfolding spec_child_names_append by (simp add: PREFIX_PATH_FILE_NAME_def)
  have 4: "spec_child_names sk ?t (sk @ ''prefix.path'') = {}"
    unfolding spec_child_names_append by (simp add: PREFIX_PATH_FILE_NAME_def)
  have "(\<Union>p \<in> set (example_listing sk). spec_child_names sk ?t p) = {''top.txt'', ''c'', ''b''}"
    unfolding example_listing_def using 1 2 3 4 by simp
  also have "\<dots> = {''b'', ''c'', ''top.txt''}"
    by (rule set3_rev)
  finally show ?thesis
    using direct_children_set[OF example_table example_listing_under_key] by simp
qed

text \<open>
  C1 (as amended). For every storage key, table built in step 1 and listing whose entries
  all start with the storage key, the resolver returns a list without repetition whose
  elements are exactly the names the specification assigns to the listed entries: the
  suffix after the storage key when it has no separator and is not the marker file name,
  else the local name the table gives for the key up to the first separator of the suffix,
  else the part of the suffix before that separator. For the query \<open>/a/\<close>, the Path Map
  with \<open>/a/b/\<close> and \<open>/a/c/\<close> mapped to the remote prefixes \<open>sk @ p1\<close> and \<open>sk @ p2\<close>
  under the storage key \<open>sk\<close>, and the listing of \<open>p1/file1\<close>, \<open>p2/file2\<close>, \<open>top.txt\<close> and
  \<open>prefix.path\<close> under \<open>sk\<close>, the names returned are exactly \<open>b\<close>, \<open>c\<close> and \<open>top.txt\<close>.
\<close>

theorem direct_children_classification:
  "((\<forall>p \<in> set ps. starts_with p sk) \<and> remote_to_local_subdir ab lp pm = Inr t \<longrightarrow>
      (\<exists>names. getDirectChildrenOnRewritableDisk ab sk ps lp pm = Inr names
          \<and> distinct names
          \<and> set names = (\<Union>p \<in> set ps. spec_child_names sk t p)))
   \<and> map_sum id set (getDirectChildrenOnRewritableDisk ab' sk' (example_listing sk') ''/a/''
        (example_path_map sk')) = Inr {''b'', ''c'', ''top.txt''}"
  using direct_children_spec[of ab lp pm t ps sk] example_children[of ab' sk']
  by simp

theorem direct_children_classification_witness:
  "list_all (\<lambda>p. starts_with p ''root/'') (example_listing ''root/'')
   \<and> remote_to_local_subdir True ''/a/'' (example_path_map ''root/'')
        = Inr [''root/p1'' \<mapsto> ''b'', ''root/p2'' \<mapsto> ''c'']
   \<and> (\<exists>names. getDirectChildrenOnRewritableDisk True ''root/'' (example_listing ''root/'') ''/a/''
          (example_path_map ''root/'') = Inr names
        \<and> distinct names
        \<and> set names = (\<Union>p \<in> set (example_listing ''root/'').
             spec_child_names ''root/'' [''root/p1'' \<mapsto> ''b'', ''root/p2'' \<mapsto> ''c''] p))"
  (is "?L \<and> ?H2 \<and> ?C")
proof -
  let ?H1 = "\<forall>p \<in> set (example_listing ''root/''). starts_with p ''root/''"
  have h1: ?H1
    by (rule example_listing_under_key)
  have l: ?L
    using h1 by (simp only: list_all_iff)
  have h2: ?H2
    using example_table[of True "''root/''"] by simp
  have imp: "?H1 \<and> ?H2 \<longrightarrow> ?C"
    using direct_children_classification[of "example_listing ''root/''" "''root/''" True "''/a/''"
      "example_path_map ''root/''" "[''root/p1'' \<mapsto> ''b'', ''root/p2'' \<mapsto> ''c'']" True "''root/''"]
    by (rule conjunct1)
  have c: ?C
    by (rule mp[OF imp conjI[OF h1 h2]])
  show ?thesis
    by (rule conjI[OF l conjI[OF h2 c]])
qed

theorem direct_children_example_counterexample:
  "getDirectChildrenOnRewritableDisk False ''root/''
      [''p1/file1'', ''p2/file2'', ''root/top.txt'', ''root/prefix.path''] ''/a/''
      [(''/a/b/'', ''p1''), (''/a/c/'', ''p2'')] = Inr [''le1'', ''le2'', ''top.txt'']
   \<and> ''b'' \<notin> set [''le1'', ''le2'', ''top.txt'']
   \<and> getDirectChildrenOnRewritableDisk True ''root/''
      [''p1/file1'', ''p2/file2'', ''root/top.txt'', ''root/prefix.path''] ''/a/''
      [(''/a/b/'', ''p1''), (''/a/c/'', ''p2'')] = Inl AssertionFailed"
  by code_simp

text \<open>
  C10. When the listing contains an entry equal to the queried storage key (and every
  listed entry starts with the storage key, and step 1 has built its table), the resolver
  returns the empty string among the child names: the empty file name is not in the skip
  list.
\<close>

theorem empty_child_name_listed:
  assumes "sk \<in> set ps"
    and "\<forall>p \<in> set ps. starts_with p sk"
    and "remote_to_local_subdir ab lp pm = Inr t"
  shows "\<exists>names. getDirectChildrenOnRewritableDisk ab sk ps lp pm = Inr names \<and> [] \<in> set names"
proof -
  have "spec_child_names sk t (sk @ []) = {[]}"
    unfolding spec_child_names_append by (simp add: PREFIX_PATH_FILE_NAME_def)
  then have "[] \<in> (\<Union>p \<in> set ps. spec_child_names sk t p)"
    using assms(1) by auto
  with direct_children_spec[OF assms(3) assms(2)] show ?thesis by auto
qed

theorem empty_child_name_listed_witness:
  "''root/'' \<in> set [''root/'', ''root/top.txt'']
   \<and> list_all (\<lambda>p. starts_with p ''root/'') [''root/'', ''root/top.txt'']
   \<and> remote_to_local_subdir True ''/'' [] = Inr Map.empty
   \<and> (\<exists>names. getDirectChildrenOnRewritableDisk True ''root/'' [''root/'', ''root/top.txt''] ''/'' []
          = Inr names \<and> [] \<in> set names)
   \<and> getDirectChildrenOnRewritableDisk True ''root/'' [''root/'', ''root/top.txt''] ''/'' []
          = Inr [[], ''top.txt'']"
proof -
  have h1: "''root/'' \<in> set [''root/'', ''root/top.txt'']" by simp
  have h2: "\<forall>p \<in> set [''root/'', ''root/top.txt'']. starts_with p ''root/''"
    by (simp add: starts_with_def)
  have h3: "remote_to_local_subdir True ''/'' [] = Inr Map.empty"
    by (simp add: remote_to_local_subdir_def lower_bound_def)
  have v: "getDirectChildrenOnRewritableDisk True ''root/'' [''root/'', ''root/top.txt''] ''/'' []
          = Inr [[], ''top.txt'']"
    by code_simp
  from h2 have l: "list_all (\<lambda>p. starts_with p ''root/'') [''root/'', ''root/top.txt'']"
    by (simp only: list_all_iff)
  from empty_child_name_listed[OF h1 h2 h3] h1 l h3 v show ?thesis
    by (intro conjI)
qed

subsection \<open>The scan of the Path Map\<close>

lemma single_separators_tl: "single_separators (c # cs) \<Longrightarrow> single_separators cs"
  by (cases cs) simp_all

lemma single_separators_dropWhile:
  "single_separators r \<Longrightarrow> single_separators (dropWhile P r)"
  by (induction r) (auto dest: single_separators_tl)

lemma single_separators_after:
  "single_separators (CHR ''/'' # cs) \<Longrightarrow> cs = [] \<or> hd cs \<noteq> CHR ''/''"
  by (cases cs) simp_all

lemma elements_from_split:
  assumes "single_separators r"
  shows "elements_from r cur =
     (cur @ takeWhile not_sep r) #
       (case dropWhile not_sep r of [] \<Rightarrow> [] | s # rest \<Rightarrow> elements_from rest [])"
  using assms
proof (induction r cur rule: elements_from.induct)
  case (1 cur)
  then show ?case by simp
next
  case (2 c cs cur)
  from "2.prems" have scs: "single_separators cs" by (rule single_separators_tl)
  show ?case
  proof (cases "c = CHR ''/''")
    case True
    with "2.prems" have "cs = [] \<or> hd cs \<noteq> CHR ''/''"
      using single_separators_after by blast
    with True show ?thesis by (auto simp: not_sep_def)
  next
    case False
    with "2.IH"(3)[OF False scs] show ?thesis by (simp add: not_sep_def)
  qed
qed


lemma append_less_iff:
  fixes u1 u2 a1 a2 :: "nat list"
  assumes "\<forall>x \<in> set u1. 0 < x" and "\<forall>x \<in> set u2. 0 < x"
    and "a1 = [] \<or> hd a1 = 0" and "a2 = [] \<or> hd a2 = 0"
  shows "u1 @ a1 < u2 @ a2 \<longleftrightarrow> u1 < u2 \<or> (u1 = u2 \<and> a1 < a2)"
  using assms(1,2)
proof (induction u1 arbitrary: u2)
  case Nil
  show ?case
  proof (cases u2)
    case Nil
    then show ?thesis by simp
  next
    case (Cons x xs)
    with Nil.prems have "0 < x" by simp
    with Cons assms(3) show ?thesis by (cases a1) auto
  qed
next
  case (Cons y ys)
  show ?case
  proof (cases u2)
    case Nil
    from Cons.prems have "0 < y" by simp
    with Nil assms(4) show ?thesis by (cases a2) auto
  next
    case c2: (Cons x xs)
    with Cons.prems Cons.IH[of xs] show ?thesis by auto
  qed
qed

lemma sep_code_less:
  "not_sep c \<Longrightarrow> not_sep d \<Longrightarrow> sep_code c < sep_code d \<longleftrightarrow> c < d"
  by (simp add: sep_code_def not_sep_def less_char_def)

lemma sep_code_inj: "sep_code c = sep_code d \<longleftrightarrow> c = d"
  by (auto simp: sep_code_def)

lemma map_sep_code_inj: "map sep_code r1 = map sep_code r2 \<longleftrightarrow> r1 = r2"
  by (rule inj_map_eq_map) (simp add: inj_on_def sep_code_inj)

lemma map_sep_code_less:
  assumes "\<forall>c \<in> set h1. not_sep c" and "\<forall>c \<in> set h2. not_sep c"
  shows "map sep_code h1 < map sep_code h2 \<longleftrightarrow> h1 < h2"
  using assms
proof (induction h1 arbitrary: h2)
  case Nil
  then show ?case by (cases h2) simp_all
next
  case (Cons c h1)
  show ?case
  proof (cases h2)
    case Nil
    then show ?thesis by simp
  next
    case c2: (Cons d h2')
    with Cons.prems Cons.IH[of h2'] show ?thesis
      by (simp add: sep_code_less sep_code_inj)
  qed
qed

lemma map_sep_code_positive: "\<forall>c \<in> set h. not_sep c \<Longrightarrow> \<forall>x \<in> set (map sep_code h). 0 < x"
  by (auto simp: sep_code_def not_sep_def)


lemma dropWhile_not_sep_cases:
  "dropWhile not_sep r = [] \<or> (\<exists>rest. dropWhile not_sep r = CHR ''/'' # rest)"
proof (cases "dropWhile not_sep r")
  case Nil
  then show ?thesis by simp
next
  case (Cons s rest)
  then have "\<not> not_sep s" by (metis hd_dropWhile list.sel(1) list.distinct(1))
  with Cons show ?thesis by (simp add: not_sep_def)
qed

lemma elements_from_nonempty: "elements_from r cur \<noteq> []"
  by (induction r cur rule: elements_from.induct) auto

lemma elements_less_iff:
  assumes "single_separators r1" and "single_separators r2"
  shows "elements_from r1 [] < elements_from r2 [] \<longleftrightarrow> map sep_code r1 < map sep_code r2"
  using assms
proof (induction "length r1" arbitrary: r1 r2 rule: less_induct)
  case less
  define h1 where "h1 = takeWhile not_sep r1"
  define t1 where "t1 = dropWhile not_sep r1"
  define h2 where "h2 = takeWhile not_sep r2"
  define t2 where "t2 = dropWhile not_sep r2"
  define x1 where "x1 = (case t1 of [] \<Rightarrow> [] | s # rest \<Rightarrow> elements_from rest [])"
  define x2 where "x2 = (case t2 of [] \<Rightarrow> [] | s # rest \<Rightarrow> elements_from rest [])"
  have e1: "elements_from r1 [] = h1 # x1"
    using elements_from_split[OF less.prems(1), of "[]"] by (simp add: h1_def t1_def x1_def)
  have e2: "elements_from r2 [] = h2 # x2"
    using elements_from_split[OF less.prems(2), of "[]"] by (simp add: h2_def t2_def x2_def)
  have r1: "r1 = h1 @ t1" and r2: "r2 = h2 @ t2"
    by (simp_all add: h1_def t1_def h2_def t2_def)
  have n1: "\<forall>c \<in> set h1. not_sep c" and n2: "\<forall>c \<in> set h2. not_sep c"
    unfolding h1_def h2_def by (auto dest: set_takeWhileD)
  have a1: "map sep_code t1 = [] \<or> hd (map sep_code t1) = 0"
    using dropWhile_not_sep_cases[of r1] by (auto simp: t1_def sep_code_def)
  have a2: "map sep_code t2 = [] \<or> hd (map sep_code t2) = 0"
    using dropWhile_not_sep_cases[of r2] by (auto simp: t2_def sep_code_def)
  have tails: "x1 < x2 \<longleftrightarrow> map sep_code t1 < map sep_code t2"
  proof (cases t1)
    case Nil
    show ?thesis
    proof (cases t2)
      case n2: Nil
      with Nil show ?thesis by (simp add: x1_def x2_def)
    next
      case (Cons s rest)
      with Nil elements_from_nonempty[of rest "[]"] show ?thesis
        by (cases "elements_from rest []") (simp_all add: x1_def x2_def)
    qed
  next
    case c1: (Cons s1 rest1)
    show ?thesis
    proof (cases t2)
      case Nil
      with c1 show ?thesis by (simp add: x1_def x2_def)
    next
      case c2: (Cons s2 rest2)
      from c1 dropWhile_not_sep_cases[of r1] have s1: "s1 = CHR ''/''" by (simp add: t1_def)
      from c2 dropWhile_not_sep_cases[of r2] have s2: "s2 = CHR ''/''" by (simp add: t2_def)
      have "single_separators t1" "single_separators t2"
        unfolding t1_def t2_def using less.prems by (simp_all add: single_separators_dropWhile)
      then have ss: "single_separators rest1" "single_separators rest2"
        using c1 c2 by (auto dest: single_separators_tl)
      have "length rest1 < length r1" unfolding r1 c1 by simp
      from less.hyps[OF this ss] c1 c2 s1 s2 show ?thesis
        by (simp add: x1_def x2_def)
    qed
  qed
  have "elements_from r1 [] < elements_from r2 [] \<longleftrightarrow> h1 < h2 \<or> (h1 = h2 \<and> x1 < x2)"
    by (simp add: e1 e2)
  also have "\<dots> \<longleftrightarrow> map sep_code h1 < map sep_code h2
      \<or> (map sep_code h1 = map sep_code h2 \<and> map sep_code t1 < map sep_code t2)"
    by (simp add: map_sep_code_less[OF n1 n2] map_sep_code_inj tails)
  also have "\<dots> \<longleftrightarrow> map sep_code h1 @ map sep_code t1 < map sep_code h2 @ map sep_code t2"
    by (rule append_less_iff[OF map_sep_code_positive[OF n1] map_sep_code_positive[OF n2] a1 a2,
        symmetric])
  finally show ?case by (simp add: r1[symmetric] r2[symmetric] flip: map_append)
qed


lemma take_prefix_le:
  fixes u x :: "'a::linorder list"
  shows "take (length u) x = u \<Longrightarrow> u \<le> x"
proof (induction u arbitrary: x)
  case Nil
  then show ?case by simp
next
  case (Cons a u)
  then show ?case by (cases x) auto
qed

lemma take_prefix_upward:
  fixes u x y :: "'a::linorder list"
  shows "u \<le> x \<Longrightarrow> x \<le> y \<Longrightarrow> take (length u) y = u \<Longrightarrow> take (length u) x = u"
proof (induction u arbitrary: x y)
  case Nil
  then show ?case by simp
next
  case (Cons a u)
  then obtain b x1 where x: "x = b # x1" by (cases x) auto
  with Cons.prems obtain c y1 where y: "y = c # y1" by (cases y) auto
  from Cons.prems(3) have ca: "c = a" and s1: "take (length u) y1 = u"
    by (auto simp: y)
  from Cons.prems(1,2) have "a = b \<and> u \<le> x1 \<and> x1 \<le> y1"
    unfolding x y ca by auto
  with Cons.IH[of x1 y1] s1 show ?case
    by (simp add: x)
qed

lemma relative_part_normal:
  assumes "single_separators p"
  shows "relative_part p = (if has_root_directory p then tl p else p)"
proof (cases p)
  case Nil
  then show ?thesis by (simp add: relative_part_def has_root_directory_def)
next
  case (Cons c cs)
  show ?thesis
  proof (cases "c = CHR ''/''")
    case True
    with assms Cons have "cs = [] \<or> hd cs \<noteq> CHR ''/''"
      using single_separators_after by blast
    with True Cons show ?thesis
      by (cases cs) (auto simp: relative_part_def has_root_directory_def)
  next
    case False
    with Cons show ?thesis by (simp add: relative_part_def has_root_directory_def)
  qed
qed

lemma path_elements_less_iff:
  assumes "single_separators p" and "single_separators q"
  shows "path_elements p < path_elements q \<longleftrightarrow>
           map sep_code (relative_part p) < map sep_code (relative_part q)"
proof -
  have n: "single_separators (relative_part p)" "single_separators (relative_part q)"
    using assms by (simp_all add: relative_part_def single_separators_dropWhile)
  have pe: "path_elements x = (if relative_part x = [] then [] else elements_from (relative_part x) [])"
    for x by (simp add: path_elements_def relative_part_def Let_def)
  show ?thesis
  proof (cases "relative_part p = []")
    case True
    show ?thesis
    proof (cases "relative_part q = []")
      case tq: True
      with True show ?thesis by (simp add: pe)
    next
      case False
      with True elements_from_nonempty[of "relative_part q" "[]"] show ?thesis
        by (cases "elements_from (relative_part q) []"; cases "relative_part q") (simp_all add: pe)
    qed
  next
    case False
    show ?thesis
    proof (cases "relative_part q = []")
      case True
      with False show ?thesis by (simp add: pe)
    next
      case fq: False
      with False elements_less_iff[OF n] show ?thesis by (simp add: pe)
    qed
  qed
qed

lemma path_less_normal:
  assumes "single_separators p" and "single_separators q"
  shows "path_less p q \<longleftrightarrow>
           (has_root_directory p, map sep_code (relative_part p))
             < (has_root_directory q, map sep_code (relative_part q))"
  by (simp add: path_less_def path_key_def less_prod_def path_elements_less_iff[OF assms])


lemma path_less_rank:
  "single_separators p \<Longrightarrow> single_separators q \<Longrightarrow> path_less p q \<longleftrightarrow> path_rank p < path_rank q"
  by (simp add: path_less_normal path_rank_def)

lemma single_separators_take: "single_separators k \<Longrightarrow> single_separators (take n k)"
proof (induction k arbitrary: n rule: single_separators.induct)
  case 1
  then show ?case by simp
next
  case (2 c)
  then show ?case by (cases n) simp_all
next
  case (3 c d cs)
  show ?case
  proof (cases n)
    case 0
    then show ?thesis by simp
  next
    case (Suc n')
    from 3 have "single_separators (take n' (d # cs))" by simp
    with 3 Suc show ?thesis by (cases n') simp_all
  qed
qed

lemma normal_spelling:
  assumes "single_separators p"
  shows "p = (if has_root_directory p then CHR ''/'' # relative_part p else relative_part p)"
  using relative_part_normal[OF assms] by (cases p) (auto simp: has_root_directory_def)

lemma starts_with_rank:
  assumes "single_separators k" and "single_separators q" and "q \<noteq> []"
  shows "starts_with k q \<longleftrightarrow>
           has_root_directory k = has_root_directory q
           \<and> take (length (snd (path_rank q))) (snd (path_rank k)) = snd (path_rank q)"
proof -
  define rq where "rq = relative_part q"
  define rk where "rk = relative_part k"
  have t: "take (length (snd (path_rank q))) (snd (path_rank k)) = snd (path_rank q)
      \<longleftrightarrow> take (length rq) rk = rq"
    by (simp add: path_rank_def take_map map_sep_code_inj rq_def rk_def)
  have q: "q = (if has_root_directory q then CHR ''/'' # rq else rq)"
    unfolding rq_def by (rule normal_spelling[OF assms(2)])
  have k: "k = (if has_root_directory k then CHR ''/'' # rk else rk)"
    unfolding rk_def by (rule normal_spelling[OF assms(1)])
  have hq: "\<not> has_root_directory q \<Longrightarrow> rq \<noteq> [] \<and> hd rq \<noteq> CHR ''/''"
    using q assms(3) by (auto simp: has_root_directory_def)
  have hk: "\<not> has_root_directory k \<Longrightarrow> rk = [] \<or> hd rk \<noteq> CHR ''/''"
    using k by (auto simp: has_root_directory_def)
  show ?thesis
  proof (cases "has_root_directory q")
    case True
    with q have q': "q = CHR ''/'' # rq" by simp
    show ?thesis
    proof (cases "has_root_directory k")
      case tk: True
      with k have k': "k = CHR ''/'' # rk" by simp
      have "starts_with k q \<longleftrightarrow> take (length rq) rk = rq"
        unfolding starts_with_def by (subst k', subst q', subst q') simp
      with True tk t show ?thesis by simp
    next
      case False
      with k hk have "k = rk" "rk = [] \<or> hd rk \<noteq> CHR ''/''" by auto
      then have "\<not> starts_with k q"
        unfolding starts_with_def by (subst q', subst q') (cases rk, auto)
      with True False show ?thesis by simp
    qed
  next
    case False
    with q hq have q': "q = rq" and rq: "rq \<noteq> []" "hd rq \<noteq> CHR ''/''" by auto
    show ?thesis
    proof (cases "has_root_directory k")
      case True
      with k have k': "k = CHR ''/'' # rk" by simp
      have "\<not> starts_with k q"
        unfolding starts_with_def using rq by (subst k', subst q', subst q') (cases rq, auto)
      with True False show ?thesis by simp
    next
      case fk: False
      with k have k': "k = rk" by simp
      have "starts_with k q \<longleftrightarrow> take (length rq) rk = rq"
        unfolding starts_with_def by (subst k', subst q', subst q') simp
      with False fk t show ?thesis by simp
    qed
  qed
qed


lemma prefix_normal:
  "single_separators k \<Longrightarrow> starts_with k q \<Longrightarrow> single_separators q"
  unfolding starts_with_def by (metis single_separators_take)

lemma prefix_not_less:
  assumes "single_separators k" and "starts_with k q"
  shows "\<not> path_less k q"
proof (cases "q = []")
  case True
  then show ?thesis
    by (simp add: path_less_def path_key_def has_root_directory_def path_elements_def less_prod_def)
next
  case False
  note nq = prefix_normal[OF assms]
  from assms(2) starts_with_rank[OF assms(1) nq False]
  have r: "has_root_directory k = has_root_directory q"
    and t: "take (length (snd (path_rank q))) (snd (path_rank k)) = snd (path_rank q)"
    by simp_all
  from take_prefix_le[OF t] have "snd (path_rank q) \<le> snd (path_rank k)" .
  with r have "\<not> path_rank k < path_rank q"
    by (auto simp: less_prod_def path_rank_def)
  then show ?thesis by (simp add: path_less_rank[OF assms(1) nq])
qed

lemma prefix_upward:
  assumes nk: "single_separators k" and nk': "single_separators k'"
    and l1: "\<not> path_less k q" and l2: "\<not> path_less k' k" and sw: "starts_with k' q"
  shows "starts_with k q"
proof (cases "q = []")
  case True
  then show ?thesis by (simp add: starts_with_def)
next
  case False
  note nq = prefix_normal[OF nk' sw]
  from sw starts_with_rank[OF nk' nq False]
  have r: "has_root_directory k' = has_root_directory q"
    and t: "take (length (snd (path_rank q))) (snd (path_rank k')) = snd (path_rank q)"
    by simp_all
  from l1 have a: "path_rank q \<le> path_rank k" by (simp add: path_less_rank[OF nk nq])
  from l2 have b: "path_rank k \<le> path_rank k'" by (simp add: path_less_rank[OF nk' nk])
  from a b r have rk: "has_root_directory k = has_root_directory q"
    by (auto simp: less_eq_prod_def path_rank_def)
  with a b r have "snd (path_rank q) \<le> snd (path_rank k)" "snd (path_rank k) \<le> snd (path_rank k')"
    by (auto simp: less_eq_prod_def path_rank_def)
  from take_prefix_upward[OF this t] rk show ?thesis
    by (simp add: starts_with_rank[OF nk nq False])
qed

lemma range_tail:
  assumes "sorted_wrt R m" and "\<forall>x \<in> set m. \<not> L x"
    and "\<forall>e \<in> set m. \<forall>e' \<in> set m. R e e' \<and> \<not> L e \<and> P e' \<longrightarrow> P e"
  shows "takeWhile P m = filter P m"
  using assms
proof (induction m)
  case Nil
  then show ?case by simp
next
  case (Cons e m)
  from Cons.prems(1) have re: "\<forall>x \<in> set m. R e x" and sm: "sorted_wrt R m" by simp_all
  from Cons.prems(2) have le: "\<not> L e" and lm: "\<forall>x \<in> set m. \<not> L x" by simp_all
  from Cons.prems(3) have
    pm: "\<forall>a \<in> set m. \<forall>a' \<in> set m. R a a' \<and> \<not> L a \<and> P a' \<longrightarrow> P a"
    by simp
  show ?case
  proof (cases "P e")
    case True
    with Cons.IH[OF sm lm pm] show ?thesis by simp
  next
    case False
    have "\<not> P x" if x: "x \<in> set m" for x
    proof
      assume "P x"
      moreover from re x have "R e x" by blast
      moreover have "e \<in> set (e # m)" "x \<in> set (e # m)" using x by simp_all
      ultimately have "P e" using Cons.prems(3) le by blast
      with False show False by contradiction
    qed
    then have "filter P m = []" by (simp add: filter_empty_conv)
    with False show ?thesis by simp
  qed
qed

lemma range_contiguous:
  assumes "sorted_wrt R m"
    and "\<forall>e \<in> set m. P e \<longrightarrow> \<not> L e"
    and "\<forall>e \<in> set m. \<forall>e' \<in> set m. R e e' \<and> \<not> L e \<and> P e' \<longrightarrow> P e"
    and "\<forall>e \<in> set m. \<forall>e' \<in> set m. R e e' \<and> \<not> L e \<longrightarrow> \<not> L e'"
  shows "takeWhile P (dropWhile L m) = filter P m"
  using assms
proof (induction m)
  case Nil
  show ?case by simp
next
  case (Cons e m)
  from Cons.prems(1) have re: "\<forall>x \<in> set m. R e x" and sm: "sorted_wrt R m" by simp_all
  from Cons.prems(2) have p2: "\<forall>a \<in> set m. P a \<longrightarrow> \<not> L a" by simp
  from Cons.prems(3) have
    p3: "\<forall>a \<in> set m. \<forall>a' \<in> set m. R a a' \<and> \<not> L a \<and> P a' \<longrightarrow> P a" by simp
  from Cons.prems(4) have
    p4: "\<forall>a \<in> set m. \<forall>a' \<in> set m. R a a' \<and> \<not> L a \<longrightarrow> \<not> L a'"
    by (meson list.set_intros(2))
  show ?case
  proof (cases "L e")
    case True
    with Cons.prems(2) have "\<not> P e" by simp
    with True Cons.IH[OF sm p2 p3 p4] show ?thesis by simp
  next
    case False
    have "\<not> L x" if x: "x \<in> set (e # m)" for x
    proof (cases "x = e")
      case True
      with False show ?thesis by simp
    next
      case ne: False
      with x have xm: "x \<in> set m" by simp
      with re have "R e x" by blast
      moreover have "e \<in> set (e # m)" by simp
      ultimately show ?thesis using Cons.prems(4) x False by blast
    qed
    then have "\<forall>x \<in> set (e # m). \<not> L x" by blast
    from range_tail[OF Cons.prems(1) this Cons.prems(3)] False show ?thesis by simp
  qed
qed

lemma visited_entries_normal:
  assumes inv: "path_map_inv m" and nm: "\<forall>(k, v) \<in> set m. single_separators k"
  shows "visited_entries lp m = filter (\<lambda>(k, v). starts_with k lp) m"
proof -
  let ?R = "\<lambda>a b. entry_key a \<le> entry_key b"
  let ?P = "\<lambda>(k, v). starts_with k lp"
  let ?L = "\<lambda>(k, v). path_less k lp"
  have s: "sorted_wrt ?R m"
    using inv by (simp add: path_map_inv_def sorted_map)
  have f1: "\<forall>e \<in> set m. ?P e \<longrightarrow> \<not> ?L e"
    using nm prefix_not_less by fastforce
  have f2: "\<forall>e \<in> set m. \<forall>e' \<in> set m. ?R e e' \<and> \<not> ?L e \<and> ?P e' \<longrightarrow> ?P e"
  proof (intro ballI impI)
    fix e e' assume e: "e \<in> set m" and e': "e' \<in> set m"
      and h: "?R e e' \<and> \<not> ?L e \<and> ?P e'"
    obtain k v where ke: "e = (k, v)" by (cases e)
    obtain k' v' where ke': "e' = (k', v')" by (cases e')
    from nm e e' have n: "single_separators k" "single_separators k'" by (auto simp: ke ke')
    from h have "\<not> path_less k lp" "\<not> path_less k' k" "starts_with k' lp"
      by (auto simp: ke ke' entry_key_def path_less_def)
    from prefix_upward[OF n this] show "?P e" by (simp add: ke)
  qed
  have f3: "\<forall>e \<in> set m. \<forall>e' \<in> set m. ?R e e' \<and> \<not> ?L e \<longrightarrow> \<not> ?L e'"
    by (auto simp: entry_key_def path_less_def)
  from range_contiguous[where R="?R" and P="?P" and L="?L", OF s f1 f2 f3]
  show ?thesis by (simp add: visited_entries_def lower_bound_def)
qed

lemma scan_prefixes_takeWhile:
  "scan_prefixes ab lp (takeWhile (\<lambda>(k, v). starts_with k lp) xs) t = scan_prefixes ab lp xs t"
  by (induction ab lp xs t rule: scan_prefixes.induct) auto

lemma first_child_with_Nil: "first_child_with lp [] r = None"
  by (simp add: first_child_with_def immediate_children_def)

lemma first_child_with_Cons:
  "first_child_with lp ((k, v) # rest) r =
     (if starts_with k lp \<and> count_slashes_from (length lp) k = 1 \<and> v = r
      then Some (child_name lp k) else first_child_with lp rest r)"
  by (simp add: first_child_with_def immediate_children_def)

lemma scan_prefixes_children:
  assumes "\<forall>(k, v) \<in> set xs. starts_with k lp"
    and "\<forall>(k, v) \<in> set xs. count_slashes_from (length lp) k = 1 \<longrightarrow> last k = CHR ''/''"
  shows "\<exists>t'. scan_prefixes ab lp xs t = Inr t' \<and>
           (\<forall>r. t' r = (case t r of Some n \<Rightarrow> Some n
                         | None \<Rightarrow> first_child_with lp xs r))"
  using assms
proof (induction ab lp xs t rule: scan_prefixes.induct)
  case (1 ab lp t)
  then show ?case
    by (simp add: first_child_with_Nil split: option.split)
next
  case (2 ab lp k v rest t)
  from "2.prems" have sw: "starts_with k lp" by simp
  from "2.prems" have r1: "\<forall>(k, v) \<in> set rest. starts_with k lp"
    and r2: "\<forall>(k, v) \<in> set rest. count_slashes_from (length lp) k = 1 \<longrightarrow> last k = CHR ''/''"
    by auto
  show ?case
  proof (cases "count_slashes_from (length lp) k = 1")
    case False
    with sw "2.IH"(1)[OF _ _ r1 r2] show ?thesis
      by (simp add: first_child_with_Cons cong: option.case_cong)
  next
    case True
    with "2.prems" have lk: "last k = CHR ''/''" by simp
    then have nc: "\<not> chassert ab (last k = CHR ''/'')" by (simp add: chassert_def)
    from "2.IH"(2)[OF _ _ nc r1 r2] sw True obtain t' where
      t': "scan_prefixes ab lp rest (table_emplace t v (butlast (drop (length lp) k))) = Inr t'"
      "\<forall>r. t' r = (case table_emplace t v (butlast (drop (length lp) k)) r of
                      Some n \<Rightarrow> Some n | None \<Rightarrow> first_child_with lp rest r)"
      by auto
    have "scan_prefixes ab lp ((k, v) # rest) t = Inr t'"
      using sw True nc t'(1) by simp
    moreover have "\<forall>r. t' r = (case t r of Some n \<Rightarrow> Some n
                         | None \<Rightarrow> first_child_with lp ((k, v) # rest) r)"
      using t'(2) sw True
      by (auto simp: table_emplace_def first_child_with_Cons child_name_def
          split: option.splits)
    ultimately show ?thesis by blast
  qed
qed

lemma immediate_children_filter:
  "immediate_children lp (filter (\<lambda>(k, v). starts_with k lp) m) = immediate_children lp m"
  unfolding immediate_children_def filter_filter
  by (rule filter_cong) auto

lemma remote_to_local_subdir_visited:
  "remote_to_local_subdir ab lp m = scan_prefixes ab lp (visited_entries lp m) Map.empty"
  by (simp add: remote_to_local_subdir_def visited_entries_def scan_prefixes_takeWhile)

lemma remote_to_local_subdir_first_wins:
  assumes inv: "path_map_inv m"
    and nm: "\<forall>(k, v) \<in> set m. single_separators k"
    and sep: "\<forall>(k, v) \<in> set (immediate_children lp m). last k = CHR ''/''"
  shows "\<exists>t. remote_to_local_subdir ab lp m = Inr t \<and> (\<forall>r. t r = first_child_with lp m r)"
proof -
  let ?xs = "filter (\<lambda>(k, v). starts_with k lp) m"
  have run: "remote_to_local_subdir ab lp m = scan_prefixes ab lp ?xs Map.empty"
    unfolding remote_to_local_subdir_visited visited_entries_normal[OF inv nm] ..
  have a1: "\<forall>(k, v) \<in> set ?xs. starts_with k lp" by auto
  have a2: "\<forall>(k, v) \<in> set ?xs. count_slashes_from (length lp) k = 1 \<longrightarrow> last k = CHR ''/''"
    using sep by (auto simp: immediate_children_def)
  have fc: "first_child_with lp ?xs = first_child_with lp m"
    by (rule ext) (simp add: first_child_with_def immediate_children_filter)
  from scan_prefixes_children[OF a1 a2, of ab Map.empty] show ?thesis
    unfolding run fc by simp
qed

lemma child_key_decomp:
  assumes "starts_with k lp" and "count_slashes_from (length lp) k = 1" and "last k = CHR ''/''"
  shows "k = lp @ child_name lp k @ ''/'' \<and> CHR ''/'' \<notin> set (child_name lp k)"
proof -
  obtain s where k: "k = lp @ s" using starts_with_append[OF assms(1)] by blast
  from assms(2) have c: "count_list s CHR ''/'' = 1" by (simp add: count_slashes_from_def k)
  then have ne: "s \<noteq> []" by auto
  with assms(3) have "last s = CHR ''/''" by (simp add: k)
  with ne have s: "s = butlast s @ ''/''" by (metis append_butlast_last_id)
  have "count_list (butlast s @ ''/'') CHR ''/'' = 1" using c s by simp
  then have "count_list (butlast s) CHR ''/'' = 0" by simp
  then have "CHR ''/'' \<notin> set (butlast s)" by (simp add: count_list_0_iff)
  then show ?thesis using s by (simp add: k child_name_def)
qed

lemma child_key_compose:
  assumes "CHR ''/'' \<notin> set n"
  shows "starts_with (lp @ n @ ''/'') lp \<and> count_slashes_from (length lp) (lp @ n @ ''/'') = 1
         \<and> child_name lp (lp @ n @ ''/'') = n \<and> last (lp @ n @ ''/'') = CHR ''/''"
  using assms
  by (simp add: starts_with_def count_slashes_from_def child_name_def butlast_append
      count_list_0_iff)

lemma find_unique_value:
  "distinct (map snd ys) \<Longrightarrow> (k, r) \<in> set ys \<Longrightarrow> find (\<lambda>(k, v). v = r) ys = Some (k, r)"
  by (induction ys) (auto simp: rev_image_eqI)

lemma find_value_member:
  "find (\<lambda>(k, v). v = r) ys = Some (k, v) \<Longrightarrow> (k, v) \<in> set ys \<and> v = r"
  by (induction ys) (auto split: if_splits)

lemma first_child_with_distinct:
  assumes sep: "\<forall>(k, v) \<in> set (immediate_children lp m). last k = CHR ''/''"
    and dist: "distinct (map snd (immediate_children lp m))"
  shows "first_child_with lp m r = Some n \<longleftrightarrow> CHR ''/'' \<notin> set n \<and> (lp @ n @ ''/'', r) \<in> set m"
proof
  assume "first_child_with lp m r = Some n"
  then obtain k v where f: "find (\<lambda>(k, v). v = r) (immediate_children lp m) = Some (k, v)"
    and n: "n = child_name lp k"
    by (auto simp: first_child_with_def split: option.splits)
  from find_value_member[OF f] have mem: "(k, r) \<in> set (immediate_children lp m)" by auto
  then have km: "(k, r) \<in> set m" and sw: "starts_with k lp"
    and c: "count_slashes_from (length lp) k = 1"
    by (auto simp: immediate_children_def)
  from sep mem have "last k = CHR ''/''" by auto
  from child_key_decomp[OF sw c this] km
  show "CHR ''/'' \<notin> set n \<and> (lp @ n @ ''/'', r) \<in> set m" by (simp add: n)
next
  assume a: "CHR ''/'' \<notin> set n \<and> (lp @ n @ ''/'', r) \<in> set m"
  with child_key_compose[of n lp] have "(lp @ n @ ''/'', r) \<in> set (immediate_children lp m)"
    by (simp add: immediate_children_def)
  from find_unique_value[OF dist this] a child_key_compose[of n lp]
  show "first_child_with lp m r = Some n" by (simp add: first_child_with_def)
qed


text \<open>
  C6 (as amended). For every Path Map whose local paths are spelled with single separators
  and every queried local path, the scan that starts at the lower bound of the query path
  and stops at the first key that does not start with it visits exactly the entries whose
  local path starts with the query path. When moreover the local paths of the
  immediate-child entries (exactly one separator beyond the length of the query path) end
  with the separator, the table maps a remote prefix to the name, without the trailing
  separator, of the first immediate-child entry in the order of the map that carries this
  remote prefix; when the remote prefixes of the immediate-child entries are pairwise
  distinct, the table contains exactly the immediate-child entries, each mapped from its
  remote prefix to its name.
\<close>

theorem prefix_scan_builds_table:
  assumes "path_map_inv m"
    and "\<forall>(k, v) \<in> set m. single_separators k"
    and "\<forall>(k, v) \<in> set (immediate_children lp m). last k = CHR ''/''"
  shows "visited_entries lp m = filter (\<lambda>(k, v). starts_with k lp) m
    \<and> remote_to_local_subdir ab lp m = scan_prefixes ab lp (visited_entries lp m) Map.empty
    \<and> (\<exists>t. remote_to_local_subdir ab lp m = Inr t
          \<and> (\<forall>r. t r = first_child_with lp m r)
          \<and> (distinct (map snd (immediate_children lp m)) \<longrightarrow>
               (\<forall>r n. t r = Some n \<longleftrightarrow> CHR ''/'' \<notin> set n \<and> (lp @ n @ ''/'', r) \<in> set m)))"
proof -
  from remote_to_local_subdir_first_wins[OF assms, of ab] obtain t where
    t: "remote_to_local_subdir ab lp m = Inr t" "\<forall>r. t r = first_child_with lp m r" by blast
  have "distinct (map snd (immediate_children lp m)) \<longrightarrow>
       (\<forall>r n. t r = Some n \<longleftrightarrow> CHR ''/'' \<notin> set n \<and> (lp @ n @ ''/'', r) \<in> set m)"
    using first_child_with_distinct[OF assms(3)] t(2) by simp
  with t visited_entries_normal[OF assms(1,2)] remote_to_local_subdir_visited[of ab lp m]
  show ?thesis by blast
qed

theorem prefix_scan_builds_table_witness:
  "path_map_inv witness_path_map
   \<and> list_all (\<lambda>(k, v). single_separators k) witness_path_map
   \<and> list_all (\<lambda>(k, v). last k = CHR ''/'') (immediate_children ''/a/'' witness_path_map)
   \<and> visited_entries ''/a/'' witness_path_map = take 3 witness_path_map
   \<and> immediate_children ''/a/'' witness_path_map = take 2 witness_path_map
   \<and> visited_entries ''/a/'' witness_path_map
       = filter (\<lambda>(k, v). starts_with k ''/a/'') witness_path_map
   \<and> remote_to_local_subdir True ''/a/'' witness_path_map
       = scan_prefixes True ''/a/'' (visited_entries ''/a/'' witness_path_map) Map.empty
   \<and> (\<exists>t. remote_to_local_subdir True ''/a/'' witness_path_map = Inr t
          \<and> (\<forall>r. t r = first_child_with ''/a/'' witness_path_map r)
          \<and> (distinct (map snd (immediate_children ''/a/'' witness_path_map)) \<longrightarrow>
               (\<forall>r n. t r = Some n \<longleftrightarrow>
                  CHR ''/'' \<notin> set n \<and> (''/a/'' @ n @ ''/'', r) \<in> set witness_path_map)))"
proof -
  have h1: "path_map_inv witness_path_map"
    by code_simp
  have i: "list_all (\<lambda>(k, v). single_separators k) witness_path_map"
    by code_simp
  then have hn: "\<forall>(k, v) \<in> set witness_path_map. single_separators k"
    by (simp only: list_all_iff)
  have l: "list_all (\<lambda>(k, v). last k = CHR ''/'') (immediate_children ''/a/'' witness_path_map)"
    by code_simp
  then have h2: "\<forall>(k, v) \<in> set (immediate_children ''/a/'' witness_path_map). last k = CHR ''/''"
    by (simp only: list_all_iff)
  have v: "visited_entries ''/a/'' witness_path_map = take 3 witness_path_map"
    by code_simp
  have c: "immediate_children ''/a/'' witness_path_map = take 2 witness_path_map"
    by code_simp
  from prefix_scan_builds_table[OF h1 hn h2, of True] h1 i l v c show ?thesis
    by (intro conjI) (elim conjE, assumption)+
qed

theorem prefix_scan_table_counterexample:
  "path_map_inv unevenly_spelled_path_map
   \<and> filter (\<lambda>(k, v). starts_with k ''/a/'') unevenly_spelled_path_map
       = [(''/a/b/'', ''p1''), (''/a/d/'', ''p3'')]
   \<and> visited_entries ''/a/'' unevenly_spelled_path_map = [(''/a/b/'', ''p1'')]
   \<and> map_sum id (\<lambda>t. t ''p3'') (remote_to_local_subdir True ''/a/'' unevenly_spelled_path_map)
       = Inr None
   \<and> path_map_inv [(''/a/b/'', ''p''), (''/a/c/'', ''p'')]
   \<and> immediate_children ''/a/'' [(''/a/b/'', ''p''), (''/a/c/'', ''p'')]
       = [(''/a/b/'', ''p''), (''/a/c/'', ''p'')]
   \<and> map_sum id (\<lambda>t. t ''p'') (remote_to_local_subdir True ''/a/'' [(''/a/b/'', ''p''), (''/a/c/'', ''p'')])
       = Inr (Some ''b'')
   \<and> immediate_children ''/a/'' [(''/a/b/c'', ''q'')] = [(''/a/b/c'', ''q'')]
   \<and> map_sum id (\<lambda>t. t ''q'') (remote_to_local_subdir False ''/a/'' [(''/a/b/c'', ''q'')])
       = Inr (Some ''b/'')"
  by code_simp

section \<open>Properties of the loader\<close>

lemma keyed_simps:
  "keyed [] = []" "keyed (e # m) = (entry_key e, e) # keyed m" "keyed (m @ n) = keyed m @ keyed n"
  "map fst (keyed m) = map entry_key m" "fst ` set (keyed m) = entry_key ` set m"
  by (simp_all add: keyed_def image_image comp_def)

lemma path_map_inv_Cons:
  "path_map_inv (e # m) \<longleftrightarrow> (\<forall>x \<in> set m. entry_key e < entry_key x) \<and> path_map_inv m"
  by (auto simp: path_map_inv_def order_less_le)

lemma path_map_inv_Nil: "path_map_inv []"
  by (simp add: path_map_inv_def)

lemma path_map_emplace_present:
  "path_map_inv m \<Longrightarrow> path_key k \<in> entry_key ` set m \<Longrightarrow>
     \<exists>e. path_map_emplace k v m = (m, False, snd e) \<and> map_of (keyed m) (path_key k) = Some e"
proof (induction m)
  case Nil
  then show ?case by simp
next
  case (Cons e m)
  obtain k' v' where e: "e = (k', v')" by (cases e)
  show ?case
  proof (cases "path_key k = path_key k'")
    case True
    then show ?thesis
      by (intro exI[of _ "(k', v')"]) (simp add: e path_equal_def keyed_simps entry_key_def)
  next
    case False
    with Cons.prems have km: "path_key k \<in> entry_key ` set m" and inv: "path_map_inv m"
      and lt: "path_key k' < path_key k"
      by (auto simp: e path_map_inv_Cons entry_key_def)
    from lt have nl: "\<not> path_key k < path_key k'" by simp
    from Cons.IH[OF inv km] obtain e' where
      "path_map_emplace k v m = (m, False, snd e')" "map_of (keyed m) (path_key k) = Some e'"
      by blast
    with False nl show ?thesis
      by (intro exI[of _ e']) (simp add: e path_equal_def path_less_def keyed_simps entry_key_def)
  qed
qed

lemma path_map_emplace_absent:
  "path_map_inv m \<Longrightarrow> path_key k \<notin> entry_key ` set m \<Longrightarrow>
     \<exists>m'. path_map_emplace k v m = (m', True, v) \<and> set m' = insert (k, v) (set m)
          \<and> length m' = Suc (length m) \<and> path_map_inv m'"
proof (induction m)
  case Nil
  then show ?case by (simp add: path_map_inv_def)
next
  case (Cons e m)
  obtain k' v' where e: "e = (k', v')" by (cases e)
  from Cons.prems have ne: "path_key k \<noteq> path_key k'" and km: "path_key k \<notin> entry_key ` set m"
    and inv: "path_map_inv m" and lt: "\<forall>x \<in> set m. path_key k' < entry_key x"
    by (auto simp: e path_map_inv_Cons entry_key_def)
  show ?case
  proof (cases "path_key k < path_key k'")
    case True
    then have "\<forall>x \<in> set ((k', v') # m). entry_key (k, v) < entry_key x"
      using lt by (auto simp: entry_key_def)
    then have "path_map_inv ((k, v) # (k', v') # m)"
      using Cons.prems(1) unfolding e path_map_inv_Cons[of "(k, v)"] by simp
    with True ne show ?thesis by (simp add: e path_equal_def path_less_def)
  next
    case False
    with ne have gt: "path_key k' < path_key k" by simp
    from Cons.IH[OF inv km] obtain m' where
      m': "path_map_emplace k v m = (m', True, v)" "set m' = insert (k, v) (set m)"
          "length m' = Suc (length m)" "path_map_inv m'" by blast
    have "path_map_inv ((k', v') # m')"
      using m'(2,4) lt gt by (simp add: path_map_inv_Cons entry_key_def)
    with False ne m' show ?thesis by (auto simp: e path_equal_def path_less_def)
  qed
qed


lemma path_map_emplace_cases:
  assumes "path_map_inv m"
  shows "\<exists>m' ins mapped. path_map_emplace k v m = (m', ins, mapped)
          \<and> path_map_inv m'
          \<and> map_of (keyed m') = (\<lambda>x. if x = path_key k \<and> map_of (keyed m) (path_key k) = None
                                       then Some (k, v) else map_of (keyed m) x)
          \<and> (ins \<longleftrightarrow> path_key k \<notin> entry_key ` set m)
          \<and> (\<not> ins \<longrightarrow> m' = m \<and> (\<exists>e. map_of (keyed m) (path_key k) = Some e \<and> mapped = snd e))
          \<and> length m' = (if ins then Suc (length m) else length m)"
proof (cases "path_key k \<in> entry_key ` set m")
  case True
  from path_map_emplace_present[OF assms True, of v] obtain e where
    e: "path_map_emplace k v m = (m, False, snd e)" "map_of (keyed m) (path_key k) = Some e"
    by blast
  with assms True show ?thesis by (auto simp: fun_eq_iff)
next
  case False
  from path_map_emplace_absent[OF assms False, of v] obtain m' where
    m': "path_map_emplace k v m = (m', True, v)" "set m' = insert (k, v) (set m)"
        "length m' = Suc (length m)" "path_map_inv m'" by blast
  have none: "map_of (keyed m) (path_key k) = None"
    using False by (simp add: map_of_eq_None_iff keyed_simps)
  have d: "distinct (map fst (keyed m'))" "distinct (map fst (keyed m))"
    using m'(4) assms by (auto simp: path_map_inv_def keyed_simps)
  have sk: "set (keyed m') = insert (path_key k, (k, v)) (set (keyed m))"
    using m'(2) by (simp add: keyed_def entry_key_def)
  have "map_of (keyed m') x = (if x = path_key k \<and> map_of (keyed m) (path_key k) = None
          then Some (k, v) else map_of (keyed m) x)" for x
  proof (cases "x = path_key k")
    case True
    have "(path_key k, (k, v)) \<in> set (keyed m')" using sk by simp
    with d(1) have "map_of (keyed m') (path_key k) = Some (k, v)" by simp
    with True none show ?thesis by simp
  next
    case nk: False
    show ?thesis
    proof (cases "map_of (keyed m) x")
      case None
      then have "x \<notin> fst ` set (keyed m)" by (simp add: map_of_eq_None_iff)
      with nk sk have "x \<notin> fst ` set (keyed m')" by auto
      then have "map_of (keyed m') x = None" by (simp add: map_of_eq_None_iff)
      with None nk show ?thesis by simp
    next
      case (Some y)
      then have "(x, y) \<in> set (keyed m)" by (rule map_of_SomeD)
      with sk have "(x, y) \<in> set (keyed m')" by simp
      with d(1) have "map_of (keyed m') x = Some y" by simp
      with Some nk show ?thesis by simp
    qed
  qed
  with m' False show ?thesis by (auto simp: fun_eq_iff)
qed


lemma is_conflict_warning_simp: "is_conflict_warning (Warning_already_mapped a b c)"
  by (simp add: is_conflict_warning_def)

lemma insert_all_Nil: "insert_all [] s = s"
  by (simp add: insert_all_def)

lemma insert_all_Cons: "insert_all ((lp, r) # ins) s = insert_all ins (insert_marker lp r s)"
  by (simp add: insert_all_def)

lemma insert_marker_step:
  assumes "path_map_inv m"
  shows "\<exists>m' lg'. insert_marker lp r (m, lg) = (m', lg') \<and> path_map_inv m'
          \<and> map_of (keyed m') = (\<lambda>x. if x = path_key lp \<and> map_of (keyed m) (path_key lp) = None
                                       then Some (lp, r) else map_of (keyed m) x)
          \<and> (path_key lp \<in> entry_key ` set m \<longrightarrow> m' = m
                \<and> lg' = lg @ [Warning_already_mapped lp
                                (snd (the (map_of (keyed m) (path_key lp)))) r])
          \<and> (path_key lp \<notin> entry_key ` set m \<longrightarrow> length m' = Suc (length m) \<and> lg' = lg)"
proof -
  from path_map_emplace_cases[OF assms, of lp r] obtain m' ins mapped where
    e: "path_map_emplace lp r m = (m', ins, mapped)" "path_map_inv m'"
       "map_of (keyed m') = (\<lambda>x. if x = path_key lp \<and> map_of (keyed m) (path_key lp) = None
                                       then Some (lp, r) else map_of (keyed m) x)"
       "ins \<longleftrightarrow> path_key lp \<notin> entry_key ` set m"
       "\<not> ins \<longrightarrow> m' = m \<and> (\<exists>e. map_of (keyed m) (path_key lp) = Some e \<and> mapped = snd e)"
       "length m' = (if ins then Suc (length m) else length m)"
    by blast
  show ?thesis
  proof (cases ins)
    case True
    with e show ?thesis by (simp add: insert_marker_def)
  next
    case False
    with e(5) obtain e' where "m' = m" "map_of (keyed m) (path_key lp) = Some e'" "mapped = snd e'"
      by blast
    with False e(1,2,3,4) show ?thesis by (simp add: insert_marker_def)
  qed
qed

lemma insert_all_char:
  assumes "path_map_inv m"
  shows "\<exists>m' ws. insert_all ins (m, lg) = (m', lg @ ws) \<and> path_map_inv m'
          \<and> map_of (keyed m') = map_of (keyed (m @ ins))
          \<and> list_all is_conflict_warning ws
          \<and> length m' + length ws = length m + length ins"
  using assms
proof (induction ins arbitrary: m lg)
  case Nil
  then show ?case by (simp add: insert_all_Nil)
next
  case (Cons e ins)
  obtain lp r where e: "e = (lp, r)" by (cases e)
  let ?w = "Warning_already_mapped lp (snd (the (map_of (keyed m) (path_key lp)))) r"
  from insert_marker_step[OF Cons.prems, of lp r lg] obtain m1 lg1 where
    s: "insert_marker lp r (m, lg) = (m1, lg1)" "path_map_inv m1"
       "map_of (keyed m1) = (\<lambda>x. if x = path_key lp \<and> map_of (keyed m) (path_key lp) = None
                                       then Some (lp, r) else map_of (keyed m) x)"
       "path_key lp \<in> entry_key ` set m \<longrightarrow> m1 = m \<and> lg1 = lg @ [?w]"
       "path_key lp \<notin> entry_key ` set m \<longrightarrow> length m1 = Suc (length m) \<and> lg1 = lg"
    by blast
  from Cons.IH[OF s(2), of lg1] obtain m' ws where
    r: "insert_all ins (m1, lg1) = (m', lg1 @ ws)" "path_map_inv m'"
       "map_of (keyed m') = map_of (keyed (m1 @ ins))" "list_all is_conflict_warning ws"
       "length m' + length ws = length m1 + length ins"
    by blast
  have mo: "map_of (keyed (m1 @ ins)) = map_of (keyed (m @ (lp, r) # ins))"
    by (rule ext) (auto simp: keyed_simps s(3) map_add_def entry_key_def split: option.splits)
  show ?case
  proof (cases "path_key lp \<in> entry_key ` set m")
    case True
    with s(4) have "m1 = m" "lg1 = lg @ [?w]" by auto
    with r mo s(1) show ?thesis
      by (intro exI[of _ m'] exI[of _ "?w # ws"])
         (simp add: e insert_all_Cons is_conflict_warning_simp)
  next
    case False
    with s(5) have "length m1 = Suc (length m)" "lg1 = lg" by auto
    with r mo s(1) show ?thesis
      by (intro exI[of _ m'] exI[of _ ws]) (simp add: e insert_all_Cons)
  qed
qed

lemma path_map_length_card:
  "path_map_inv m \<Longrightarrow> length m = card (entry_key ` set m)"
  unfolding path_map_inv_def by (metis distinct_card length_map set_map)

lemma run_unit_cases:
  assumes "ab \<longrightarrow> has_parent_path k"
  shows "run_unit ab st k (m, w) =
     (case readObject st k of
        Body lp \<Rightarrow> (Finished, fst (insert_marker lp (parent_path k) (m, log_events w)),
                    w\<lparr>accesses := accesses w @ [ReadObject k],
                      log_events := snd (insert_marker lp (parent_path k) (m, log_events w))\<rparr>)
      | Throws e \<Rightarrow> (if e = S3Exception NO_SUCH_KEY then Finished else Threw e, m,
                     w\<lparr>accesses := accesses w @ [ReadObject k]\<rparr>))"
  using assms
  by (auto simp: run_unit_def read_marker_def chassert_def Let_def
      split: read_result.splits exception.splits prod.splits)

lemma run_units_char:
  assumes "ab \<longrightarrow> (\<forall>k \<in> set ks. has_parent_path k)"
  shows "run_units ab st ks first (m, w) =
     (False, first_error first (fatal_errors st ks),
      fst (insert_all (insertions st ks) (m, log_events w)),
      w\<lparr>accesses := accesses w @ map ReadObject ks,
        log_events := snd (insert_all (insertions st ks) (m, log_events w))\<rparr>)"
  using assms
proof (induction ks arbitrary: first m w)
  case Nil
  then show ?case
    by (simp add: fatal_errors_def insertions_def insert_all_Nil first_error_def
        split: option.split)
next
  case (Cons k ks)
  from Cons.prems have hk: "ab \<longrightarrow> has_parent_path k"
    and rest: "ab \<longrightarrow> (\<forall>k \<in> set ks. has_parent_path k)" by auto
  note IH = Cons.IH[OF rest]
  show ?case
  proof (cases "readObject st k")
    case (Body lp)
    obtain m1 lg1 where im: "insert_marker lp (parent_path k) (m, log_events w) = (m1, lg1)"
      by (cases "insert_marker lp (parent_path k) (m, log_events w)")
    have ru: "run_unit ab st k (m, w) =
        (Finished, m1, w\<lparr>accesses := accesses w @ [ReadObject k], log_events := lg1\<rparr>)"
      unfolding run_unit_cases[OF hk] by (simp add: Body im)
    have i: "insertions st (k # ks) = (lp, parent_path k) # insertions st ks"
      and f: "fatal_errors st (k # ks) = fatal_errors st ks"
      by (simp_all add: insertions_def fatal_errors_def Body)
    show ?thesis
      unfolding i f insert_all_Cons im
      by (simp add: ru IH)
  next
    case (Throws e)
    have i: "insertions st (k # ks) = insertions st ks"
      by (simp add: insertions_def Throws)
    show ?thesis
    proof (cases "e = S3Exception NO_SUCH_KEY")
      case True
      have ru: "run_unit ab st k (m, w) = (Finished, m, w\<lparr>accesses := accesses w @ [ReadObject k]\<rparr>)"
        unfolding run_unit_cases[OF hk] by (simp add: Throws True)
      have f: "fatal_errors st (k # ks) = fatal_errors st ks"
        by (simp add: fatal_errors_def Throws True)
      show ?thesis unfolding i f by (simp add: ru IH)
    next
      case False
      have ru: "run_unit ab st k (m, w) = (Threw e, m, w\<lparr>accesses := accesses w @ [ReadObject k]\<rparr>)"
        unfolding run_unit_cases[OF hk] by (simp add: Throws False)
      have f: "fatal_errors st (k # ks) = e # fatal_errors st ks"
        by (simp add: fatal_errors_def Throws False)
      have fe: "first_error (if first = None then Some e else first) (fatal_errors st ks)
          = first_error first (e # fatal_errors st ks)"
        by (simp add: first_error_def split: option.split)
      show ?thesis unfolding i f by (simp add: ru IH fe)
    qed
  qed
qed

lemma load_char:
  assumes "ab \<longrightarrow> (\<forall>k \<in> set (sched (markers st root)). has_parent_path k)"
  shows "loadPathPrefixMap ab sched root st w =
    (let ks = sched (markers st root);
         s = insert_all (insertions st ks) ([], log_events w @ [Debug_Loading_metadata]);
         acc = accesses w @ Iterate root # map ReadObject ks
     in case fatal_errors st ks of
          [] \<Rightarrow> (Inr (fst s),
                 \<lparr>directory_map_size = directory_map_size w + int (length (fst s)),
                  log_events = snd s @ [Debug_Loaded_metadata (length (iterate st root)) (length (fst s))],
                  accesses = acc\<rparr>)
        | e # _ \<Rightarrow> (Inl (Raised e),
                 \<lparr>directory_map_size = directory_map_size w, log_events = snd s, accesses = acc\<rparr>))"
  unfolding loadPathPrefixMap_def Let_def markers_def[symmetric] run_units_char[OF assms]
  by (simp add: first_error_def split: list.split)

lemma set_insertions:
  "set (insertions st ks) = {(lp, parent_path k) | k lp. k \<in> set ks \<and> readObject st k = Body lp}"
  by (induction ks) (auto simp: insertions_def split: read_result.splits)

lemma set_fatal_errors:
  "set (fatal_errors st ks) =
     {e. \<exists>k \<in> set ks. readObject st k = Throws e \<and> e \<noteq> S3Exception NO_SUCH_KEY}"
  by (induction ks) (auto simp: fatal_errors_def split: read_result.splits)

lemma mset_insertions:
  "mset (insertions st ks) =
     (\<Sum>k \<in># mset ks. mset (case readObject st k of Body lp \<Rightarrow> [(lp, parent_path k)] | Throws e \<Rightarrow> []))"
  by (induction ks) (simp_all add: insertions_def)

lemma insertions_perm:
  assumes "mset ks' = mset ks"
  shows "mset (insertions st ks') = mset (insertions st ks)"
  by (simp add: mset_insertions assms)

lemma fatal_errors_perm:
  assumes "mset ks' = mset ks"
  shows "fatal_errors st ks' = [] \<longleftrightarrow> fatal_errors st ks = []"
proof -
  from assms have "set ks' = set ks" by (rule mset_eq_setD)
  then have "set (fatal_errors st ks') = set (fatal_errors st ks)"
    by (simp add: set_fatal_errors)
  then show ?thesis by (metis set_empty)
qed


lemma keyed_graph:
  assumes "distinct (map entry_key xs)" and "distinct (map entry_key ys)"
    and "map_of (keyed xs) = map_of (keyed ys)"
  shows "set xs = set ys"
proof -
  have d: "distinct (map fst (keyed xs))" "distinct (map fst (keyed ys))"
    using assms(1,2) by (simp_all add: keyed_simps)
  have "(k, e) \<in> set (keyed xs) \<longleftrightarrow> (k, e) \<in> set (keyed ys)" for k e
    using d assms(3) by (metis map_of_eq_Some_iff)
  then have "set (keyed xs) = set (keyed ys)" by auto
  then have "snd ` set (keyed xs) = snd ` set (keyed ys)" by simp
  then show ?thesis by (simp add: keyed_def image_image)
qed

lemma load_ok:
  assumes perm: "mset (sched (markers st root)) = mset (markers st root)"
    and noabort: "ab \<longrightarrow> (\<forall>k \<in> set (markers st root). has_parent_path k)"
    and nofatal: "fatal_errors st (markers st root) = []"
  shows "\<exists>m ws. loadPathPrefixMap ab sched root st w =
           (Inr m, \<lparr>directory_map_size = directory_map_size w + int (length m),
                    log_events = log_events w @ [Debug_Loading_metadata] @ ws
                       @ [Debug_Loaded_metadata (length (iterate st root)) (length m)],
                    accesses = accesses w @ Iterate root # map ReadObject (sched (markers st root))\<rparr>)
         \<and> path_map_inv m
         \<and> map_of (keyed m) = map_of (keyed (insertions st (sched (markers st root))))
         \<and> list_all is_conflict_warning ws
         \<and> length m + length ws = length (insertions st (markers st root))
         \<and> length m = card (entry_key ` set (insertions st (markers st root)))"
proof -
  let ?ks = "sched (markers st root)"
  from perm have sets: "set ?ks = set (markers st root)" by (rule mset_eq_setD)
  with noabort have na: "ab \<longrightarrow> (\<forall>k \<in> set ?ks. has_parent_path k)" by simp
  from nofatal fatal_errors_perm[OF perm] have nf: "fatal_errors st ?ks = []" by simp
  from insert_all_char[OF path_map_inv_Nil, of "insertions st ?ks" "log_events w @ [Debug_Loading_metadata]"]
  obtain m ws where
    r: "insert_all (insertions st ?ks) ([], log_events w @ [Debug_Loading_metadata])
          = (m, (log_events w @ [Debug_Loading_metadata]) @ ws)"
       "path_map_inv m" "map_of (keyed m) = map_of (keyed ([] @ insertions st ?ks))"
       "list_all is_conflict_warning ws"
       "length m + length ws = length ([]::PathMap) + length (insertions st ?ks)"
    by blast
  have len: "length (insertions st ?ks) = length (insertions st (markers st root))"
    using insertions_perm[OF perm, of st] by (metis size_mset)
  have seti: "set (insertions st ?ks) = set (insertions st (markers st root))"
    using insertions_perm[OF perm, of st] by (rule mset_eq_setD)
  have "entry_key ` set m = dom (map_of (keyed m))"
    by (simp add: dom_map_of_conv_image_fst keyed_simps)
  also have "\<dots> = entry_key ` set (insertions st ?ks)"
    using r(3) by (simp add: dom_map_of_conv_image_fst keyed_simps)
  finally have keys: "entry_key ` set m = entry_key ` set (insertions st (markers st root))"
    using seti by simp
  have card: "length m = card (entry_key ` set (insertions st (markers st root)))"
    using path_map_length_card[OF r(2)] keys by simp
  have "loadPathPrefixMap ab sched root st w =
           (Inr m, \<lparr>directory_map_size = directory_map_size w + int (length m),
                    log_events = log_events w @ [Debug_Loading_metadata] @ ws
                       @ [Debug_Loaded_metadata (length (iterate st root)) (length m)],
                    accesses = accesses w @ Iterate root # map ReadObject ?ks\<rparr>)"
    unfolding load_char[where sched=sched and st=st and root=root and ab=ab and w=w, OF na] Let_def nf r(1)
    by simp
  with r card len show ?thesis by auto
qed

lemma insertions_members:
  "(lp, r) \<in> set (insertions st (markers st root)) \<longleftrightarrow>
     (\<exists>k \<in> set (iterate st root). filename k = PREFIX_PATH_FILE_NAME
          \<and> readObject st k = Body lp \<and> r = parent_path k)"
  by (auto simp: set_insertions markers_def)

lemma insertions_keys:
  "fst ` set (insertions st (markers st root)) =
     {lp. \<exists>k \<in> set (iterate st root). filename k = PREFIX_PATH_FILE_NAME \<and> readObject st k = Body lp}"
  by (auto simp: set_insertions markers_def image_iff)


text \<open>
  C2 (as amended). For every listing whose marker objects carry local paths that are
  pairwise distinct as paths, every order in which the units run, and no fatal read
  failure, loading returns a Path Map whose size is the number of distinct local paths and
  whose entries are exactly the pairs of the local path read from a marker (a listed key
  whose file name is \<open>prefix.path\<close>) and the parent path of the marker key; the other keys
  contribute no entry.
\<close>

theorem load_distinct_markers:
  assumes perm: "mset (sched (markers st root)) = mset (markers st root)"
    and noabort: "ab \<longrightarrow> (\<forall>k \<in> set (markers st root). has_parent_path k)"
    and nofatal: "fatal_errors st (markers st root) = []"
    and dist: "distinct (map entry_key (insertions st (markers st root)))"
  shows "\<exists>m w'. loadPathPrefixMap ab sched root st w = (Inr m, w')
     \<and> path_map_inv m
     \<and> length m = card {lp. \<exists>k \<in> set (iterate st root).
                       filename k = PREFIX_PATH_FILE_NAME \<and> readObject st k = Body lp}
     \<and> (\<forall>lp r. (lp, r) \<in> set m \<longleftrightarrow>
           (\<exists>k \<in> set (iterate st root). filename k = PREFIX_PATH_FILE_NAME
                \<and> readObject st k = Body lp \<and> r = parent_path k))"
proof -
  let ?ks = "sched (markers st root)"
  let ?ins = "insertions st (markers st root)"
  from load_ok[where sched=sched and st=st and root=root and ab=ab and w=w, OF perm noabort nofatal]
  obtain m w' where
    l: "loadPathPrefixMap ab sched root st w = (Inr m, w')" "path_map_inv m"
       "map_of (keyed m) = map_of (keyed (insertions st ?ks))"
       "length m = card (entry_key ` set ?ins)"
    by blast
  have ms: "mset (insertions st ?ks) = mset ?ins"
    by (rule insertions_perm[OF perm])
  then have "mset (map entry_key (insertions st ?ks)) = mset (map entry_key ?ins)"
    by simp
  with dist have d: "distinct (map entry_key (insertions st ?ks))"
    by (metis mset_eq_imp_distinct_iff)
  from l(2) have "distinct (map entry_key m)" by (simp add: path_map_inv_def)
  from keyed_graph[OF this d l(3)] ms have sm: "set m = set ?ins"
    by (metis mset_eq_setD)
  have "map entry_key ?ins = map path_key (map fst ?ins)"
    by (simp add: entry_key_def comp_def)
  with dist have "distinct (map path_key (map fst ?ins))" by metis
  then have "distinct (map fst ?ins)"
    by (rule distinct_map[THEN iffD1, THEN conjunct1])
  then have c1: "card (fst ` set ?ins) = length ?ins"
    by (metis distinct_card length_map set_map)
  from dist have c2: "card (entry_key ` set ?ins) = length ?ins"
    by (metis distinct_card length_map set_map)
  from l(4) c1 c2 have len: "length m = card (fst ` set ?ins)" by simp
  from sm have "\<forall>lp r. (lp, r) \<in> set m \<longleftrightarrow>
           (\<exists>k \<in> set (iterate st root). filename k = PREFIX_PATH_FILE_NAME
                \<and> readObject st k = Body lp \<and> r = parent_path k)"
    by (simp add: insertions_members)
  with l(1,2) len show ?thesis unfolding insertions_keys by blast
qed

theorem load_respelled_markers_counterexample:
  "distinct (map fst (insertions (storage_of respelled_objects False)
       (markers (storage_of respelled_objects False) ''root/'')))
   \<and> insertions (storage_of respelled_objects False)
       (markers (storage_of respelled_objects False) ''root/'')
       = [(''/a/'', ''root/x''), (''/a//'', ''root/y'')]
   \<and> loadPathPrefixMap True id ''root/'' (storage_of respelled_objects False) world0
       = (Inr [(''/a/'', ''root/x'')],
          \<lparr>directory_map_size = 1,
           log_events = [Debug_Loading_metadata,
                         Warning_already_mapped ''/a//'' ''root/x'' ''root/y'',
                         Debug_Loaded_metadata 2 1],
           accesses = [Iterate ''root/'', ReadObject ''root/x/prefix.path'',
                       ReadObject ''root/y/prefix.path'']\<rparr>)"
  by code_simp


text \<open>
  C3 (as amended). Local paths are compared as paths, so that spellings that differ only
  in repeated separators are the same local path. For every sequence of marker insertions
  of a load without fatal read failure, the Path Map returned has one entry for each local
  path, namely the spelling and the remote prefix of the marker inserted first for it; the
  number of entries is the number of distinct local paths; the load logs one conflict
  warning for each other insertion; and an insertion with a local path already present
  leaves the map as it is and logs one warning.
\<close>

theorem load_first_marker_wins:
  assumes perm: "mset (sched (markers st root)) = mset (markers st root)"
    and noabort: "ab \<longrightarrow> (\<forall>k \<in> set (markers st root). has_parent_path k)"
    and nofatal: "fatal_errors st (markers st root) = []"
  shows "(\<exists>m w'. loadPathPrefixMap ab sched root st w = (Inr m, w')
      \<and> path_map_inv m
      \<and> map_of (keyed m) = map_of (keyed (insertions st (sched (markers st root))))
      \<and> length m = card (entry_key ` set (insertions st (markers st root)))
      \<and> length (filter is_conflict_warning (log_events w'))
          = length (filter is_conflict_warning (log_events w))
            + (length (insertions st (markers st root)) - length m))
    \<and> (\<forall>m0 lg lp r. path_map_inv m0 \<and> path_key lp \<in> entry_key ` set m0 \<longrightarrow>
          insert_marker lp r (m0, lg)
            = (m0, lg @ [Warning_already_mapped lp
                           (snd (the (map_of (keyed m0) (path_key lp)))) r]))"
proof -
  from load_ok[where sched=sched and st=st and root=root and ab=ab and w=w, OF perm noabort nofatal]
  obtain m ws where
    l: "loadPathPrefixMap ab sched root st w =
           (Inr m, \<lparr>directory_map_size = directory_map_size w + int (length m),
                    log_events = log_events w @ [Debug_Loading_metadata] @ ws
                       @ [Debug_Loaded_metadata (length (iterate st root)) (length m)],
                    accesses = accesses w @ Iterate root # map ReadObject (sched (markers st root))\<rparr>)"
       "path_map_inv m"
       "map_of (keyed m) = map_of (keyed (insertions st (sched (markers st root))))"
       "list_all is_conflict_warning ws"
       "length m + length ws = length (insertions st (markers st root))"
       "length m = card (entry_key ` set (insertions st (markers st root)))"
    by blast
  let ?w' = "\<lparr>directory_map_size = directory_map_size w + int (length m),
                    log_events = log_events w @ [Debug_Loading_metadata] @ ws
                       @ [Debug_Loaded_metadata (length (iterate st root)) (length m)],
                    accesses = accesses w @ Iterate root # map ReadObject (sched (markers st root))\<rparr>"
  from l(4) have "filter is_conflict_warning ws = ws"
    by (simp add: list_all_iff)
  then have "length (filter is_conflict_warning (log_events ?w'))
      = length (filter is_conflict_warning (log_events w)) + length ws"
    by (simp add: is_conflict_warning_def)
  also have "length ws = length (insertions st (markers st root)) - length m"
    using l(5) by linarith
  finally have wl: "length (filter is_conflict_warning (log_events ?w'))
      = length (filter is_conflict_warning (log_events w))
        + (length (insertions st (markers st root)) - length m)" .
  have first: "\<exists>m w'. loadPathPrefixMap ab sched root st w = (Inr m, w')
      \<and> path_map_inv m
      \<and> map_of (keyed m) = map_of (keyed (insertions st (sched (markers st root))))
      \<and> length m = card (entry_key ` set (insertions st (markers st root)))
      \<and> length (filter is_conflict_warning (log_events w'))
          = length (filter is_conflict_warning (log_events w))
            + (length (insertions st (markers st root)) - length m)"
    using l(1,2,3,6) wl by blast
  have "insert_marker lp r (m0, lg)
      = (m0, lg @ [Warning_already_mapped lp (snd (the (map_of (keyed m0) (path_key lp)))) r])"
    if "path_map_inv m0 \<and> path_key lp \<in> entry_key ` set m0" for m0 lg lp r
    using insert_marker_step[of m0 lp r lg] that by auto
  with first show ?thesis by blast
qed

theorem load_respelled_conflict_counterexample:
  "insertions (storage_of respelled_conflicting_objects False)
       (markers (storage_of respelled_conflicting_objects False) ''root/'')
     = [(''/a/'', ''root/x''), (''/a/'', ''root/y''), (''/a//'', ''root/z'')]
   \<and> remdups (map fst (insertions (storage_of respelled_conflicting_objects False)
       (markers (storage_of respelled_conflicting_objects False) ''root/'')))
     = [''/a/'', ''/a//'']
   \<and> loadPathPrefixMap True id ''root/'' (storage_of respelled_conflicting_objects False) world0
       = (Inr [(''/a/'', ''root/x'')],
          \<lparr>directory_map_size = 1,
           log_events = [Debug_Loading_metadata,
                         Warning_already_mapped ''/a/'' ''root/x'' ''root/y'',
                         Warning_already_mapped ''/a//'' ''root/x'' ''root/z'',
                         Debug_Loaded_metadata 3 1],
           accesses = [Iterate ''root/'', ReadObject ''root/x/prefix.path'',
                       ReadObject ''root/y/prefix.path'', ReadObject ''root/z/prefix.path'']\<rparr>)"
  by code_simp

lemma distinct_markers: "markers (storage_of distinct_objects False) ''root/''
    = [''root/x/prefix.path'', ''root/y/prefix.path'', ''root/z/prefix.path'']"
  by code_simp

theorem load_distinct_markers_witness:
  "mset (rev (markers (storage_of distinct_objects False) ''root/''))
     = mset (markers (storage_of distinct_objects False) ''root/'')
   \<and> list_all has_parent_path (markers (storage_of distinct_objects False) ''root/'')
   \<and> fatal_errors (storage_of distinct_objects False)
         (markers (storage_of distinct_objects False) ''root/'') = []
   \<and> distinct (map entry_key (insertions (storage_of distinct_objects False)
         (markers (storage_of distinct_objects False) ''root/'')))
   \<and> (\<exists>m w'. loadPathPrefixMap True rev ''root/'' (storage_of distinct_objects False) world0 = (Inr m, w')
     \<and> path_map_inv m
     \<and> length m = card {lp. \<exists>k \<in> set (iterate (storage_of distinct_objects False) ''root/'').
                       filename k = PREFIX_PATH_FILE_NAME
                       \<and> readObject (storage_of distinct_objects False) k = Body lp}
     \<and> (\<forall>lp r. (lp, r) \<in> set m \<longleftrightarrow>
           (\<exists>k \<in> set (iterate (storage_of distinct_objects False) ''root/'').
                filename k = PREFIX_PATH_FILE_NAME
                \<and> readObject (storage_of distinct_objects False) k = Body lp \<and> r = parent_path k)))
   \<and> fst (loadPathPrefixMap True rev ''root/'' (storage_of distinct_objects False) world0)
       = Inr [(''/a/'', ''root/x''), (''/b/'', ''root/y'')]"
proof -
  let ?st = "storage_of distinct_objects False"
  have h1: "mset (rev (markers ?st ''root/'')) = mset (markers ?st ''root/'')"
    by simp
  have l: "list_all has_parent_path (markers ?st ''root/'')"
    by code_simp
  then have h2: "True \<longrightarrow> (\<forall>k \<in> set (markers ?st ''root/''). has_parent_path k)"
    by (simp only: list_all_iff simp_thms)
  have h3: "fatal_errors ?st (markers ?st ''root/'') = []"
    by code_simp
  have h4: "distinct (map entry_key (insertions ?st (markers ?st ''root/'')))"
    by code_simp
  have v: "fst (loadPathPrefixMap True rev ''root/'' ?st world0)
       = Inr [(''/a/'', ''root/x''), (''/b/'', ''root/y'')]"
    by code_simp
  from load_distinct_markers[where sched=rev and st="?st" and root="''root/''" and ab=True and w=world0,
      OF h1 h2 h3 h4] h1 l h3 h4 v
  show ?thesis by (intro conjI)
qed

theorem load_first_marker_wins_witness:
  "mset (rev (markers (storage_of conflicting_objects False) ''root/''))
     = mset (markers (storage_of conflicting_objects False) ''root/'')
   \<and> list_all has_parent_path (markers (storage_of conflicting_objects False) ''root/'')
   \<and> fatal_errors (storage_of conflicting_objects False)
         (markers (storage_of conflicting_objects False) ''root/'') = []
   \<and> (\<exists>m w'. loadPathPrefixMap True rev ''root/'' (storage_of conflicting_objects False) world0 = (Inr m, w')
      \<and> path_map_inv m
      \<and> map_of (keyed m) = map_of (keyed (insertions (storage_of conflicting_objects False)
            (rev (markers (storage_of conflicting_objects False) ''root/''))))
      \<and> length m = card (entry_key ` set (insertions (storage_of conflicting_objects False)
            (markers (storage_of conflicting_objects False) ''root/'')))
      \<and> length (filter is_conflict_warning (log_events w'))
          = length (filter is_conflict_warning (log_events world0))
            + (length (insertions (storage_of conflicting_objects False)
                 (markers (storage_of conflicting_objects False) ''root/'')) - length m))
   \<and> loadPathPrefixMap True rev ''root/'' (storage_of conflicting_objects False) world0
       = (Inr [(''/'', ''root/w''), (''/a/'', ''root/y'')],
          \<lparr>directory_map_size = 2,
           log_events = [Debug_Loading_metadata,
                         Warning_already_mapped ''/a/'' ''root/y'' ''root/x'',
                         Debug_Loaded_metadata 3 2],
           accesses = [Iterate ''root/'', ReadObject ''root/w/prefix.path'',
                       ReadObject ''root/y/prefix.path'', ReadObject ''root/x/prefix.path'']\<rparr>)
   \<and> fst (loadPathPrefixMap True id ''root/'' (storage_of conflicting_objects False) world0)
       = Inr [(''/'', ''root/w''), (''/a/'', ''root/x'')]"
proof -
  let ?st = "storage_of conflicting_objects False"
  have h1: "mset (rev (markers ?st ''root/'')) = mset (markers ?st ''root/'')"
    by simp
  have l: "list_all has_parent_path (markers ?st ''root/'')"
    by code_simp
  then have h2: "True \<longrightarrow> (\<forall>k \<in> set (markers ?st ''root/''). has_parent_path k)"
    by (simp only: list_all_iff simp_thms)
  have h3: "fatal_errors ?st (markers ?st ''root/'') = []"
    by code_simp
  have v1: "loadPathPrefixMap True rev ''root/'' ?st world0
       = (Inr [(''/'', ''root/w''), (''/a/'', ''root/y'')],
          \<lparr>directory_map_size = 2,
           log_events = [Debug_Loading_metadata,
                         Warning_already_mapped ''/a/'' ''root/y'' ''root/x'',
                         Debug_Loaded_metadata 3 2],
           accesses = [Iterate ''root/'', ReadObject ''root/w/prefix.path'',
                       ReadObject ''root/y/prefix.path'', ReadObject ''root/x/prefix.path'']\<rparr>)"
    by code_simp
  have v2: "fst (loadPathPrefixMap True id ''root/'' ?st world0)
       = Inr [(''/'', ''root/w''), (''/a/'', ''root/x'')]"
    by code_simp
  from load_first_marker_wins[where sched=rev and st="?st" and root="''root/''" and ab=True
      and w=world0, OF h1 h2 h3]
  have "\<exists>m w'. loadPathPrefixMap True rev ''root/'' ?st world0 = (Inr m, w')
      \<and> path_map_inv m
      \<and> map_of (keyed m) = map_of (keyed (insertions ?st (rev (markers ?st ''root/''))))
      \<and> length m = card (entry_key ` set (insertions ?st (markers ?st ''root/'')))
      \<and> length (filter is_conflict_warning (log_events w'))
          = length (filter is_conflict_warning (log_events world0))
            + (length (insertions ?st (markers ?st ''root/'')) - length m)"
    by (rule conjunct1)
  with h1 l h3 v1 v2 show ?thesis by (intro conjI)
qed

lemma run_unit_no_such_key:
  "readObject st k = Throws (S3Exception NO_SUCH_KEY) \<Longrightarrow>
     run_unit ab st k (m, w0) = (Finished, m, w0\<lparr>accesses := accesses w0 @ [ReadObject k]\<rparr>)"
  by (simp add: run_unit_def read_marker_def)

text \<open>
  C4. A unit whose read fails with \<open>key not found\<close> finishes without an exception and leaves
  the map as it is. When no read fails in another way the load returns a Path Map, whose
  entries all come from markers that were read. Otherwise the load raises the first fatal
  error in the order the units ran, after every unit has run (all reads are among the
  accesses), and the metric is left as it was.
\<close>

theorem load_error_policy:
  assumes perm: "mset (sched (markers st root)) = mset (markers st root)"
    and noabort: "ab \<longrightarrow> (\<forall>k \<in> set (markers st root). has_parent_path k)"
  shows "(\<forall>k m w0. readObject st k = Throws (S3Exception NO_SUCH_KEY) \<longrightarrow>
            run_unit ab st k (m, w0) = (Finished, m, w0\<lparr>accesses := accesses w0 @ [ReadObject k]\<rparr>))
    \<and> (case fatal_errors st (sched (markers st root)) of
          [] \<Rightarrow> (\<exists>m w'. loadPathPrefixMap ab sched root st w = (Inr m, w')
                    \<and> set m \<subseteq> set (insertions st (markers st root)))
        | e # es \<Rightarrow> (\<exists>w'. loadPathPrefixMap ab sched root st w = (Inl (Raised e), w')
                    \<and> directory_map_size w' = directory_map_size w
                    \<and> accesses w' = accesses w @ Iterate root # map ReadObject (sched (markers st root))))"
proof -
  let ?ks = "sched (markers st root)"
  from perm have sets: "set ?ks = set (markers st root)" by (rule mset_eq_setD)
  with noabort have na: "ab \<longrightarrow> (\<forall>k \<in> set ?ks. has_parent_path k)" by simp
  note lc = load_char[where sched=sched and st=st and root=root and ab=ab and w=w, OF na]
  have second: "case fatal_errors st ?ks of
          [] \<Rightarrow> (\<exists>m w'. loadPathPrefixMap ab sched root st w = (Inr m, w')
                    \<and> set m \<subseteq> set (insertions st (markers st root)))
        | e # es \<Rightarrow> (\<exists>w'. loadPathPrefixMap ab sched root st w = (Inl (Raised e), w')
                    \<and> directory_map_size w' = directory_map_size w
                    \<and> accesses w' = accesses w @ Iterate root # map ReadObject ?ks)"
  proof (cases "fatal_errors st ?ks")
    case Nil
    with fatal_errors_perm[OF perm, of st] have nf: "fatal_errors st (markers st root) = []"
      by simp
    from load_ok[where sched=sched and st=st and root=root and ab=ab and w=w, OF perm noabort nf]
    obtain m w' where
      l: "loadPathPrefixMap ab sched root st w = (Inr m, w')" "path_map_inv m"
         "map_of (keyed m) = map_of (keyed (insertions st ?ks))"
      by blast
    have "x \<in> set (insertions st (markers st root))" if "x \<in> set m" for x
    proof -
      from l(2) have "distinct (map fst (keyed m))"
        by (simp add: path_map_inv_def keyed_simps)
      moreover from that have "(entry_key x, x) \<in> set (keyed m)" by (simp add: keyed_def)
      ultimately have "map_of (keyed m) (entry_key x) = Some x" by simp
      then have "(entry_key x, x) \<in> set (keyed (insertions st ?ks))"
        unfolding l(3) by (rule map_of_SomeD)
      then have "x \<in> set (insertions st ?ks)" by (auto simp: keyed_def)
      then show ?thesis using insertions_perm[OF perm, of st] by (metis mset_eq_setD)
    qed
    then have "set m \<subseteq> set (insertions st (markers st root))" by blast
    with l(1) Nil show ?thesis by auto
  next
    case (Cons e es)
    then show ?thesis unfolding lc Let_def by simp
  qed
  with run_unit_no_such_key show ?thesis by blast
qed

theorem load_error_policy_witness:
  "mset (rev (markers (storage_of failing_objects False) ''root/''))
     = mset (markers (storage_of failing_objects False) ''root/'')
   \<and> list_all has_parent_path (markers (storage_of failing_objects False) ''root/'')
   \<and> fatal_errors (storage_of failing_objects False)
        (rev (markers (storage_of failing_objects False) ''root/''))
       = [S3Exception (OTHER_S3_ERROR 1), OtherException ''timeout'']
   \<and> (\<exists>w'. loadPathPrefixMap True rev ''root/'' (storage_of failing_objects False) world0
             = (Inl (Raised (S3Exception (OTHER_S3_ERROR 1))), w')
          \<and> directory_map_size w' = directory_map_size world0
          \<and> accesses w' = accesses world0 @ Iterate ''root/''
               # map ReadObject (rev (markers (storage_of failing_objects False) ''root/'')))
   \<and> fst (loadPathPrefixMap True id ''root/'' (storage_of failing_objects False) world0)
       = Inl (Raised (OtherException ''timeout''))
   \<and> fst (loadPathPrefixMap True id ''root/'' (storage_of distinct_objects False) world0)
       = Inr [(''/a/'', ''root/x''), (''/b/'', ''root/y'')]"
proof -
  let ?st = "storage_of failing_objects False"
  have h1: "mset (rev (markers ?st ''root/'')) = mset (markers ?st ''root/'')"
    by simp
  have l: "list_all has_parent_path (markers ?st ''root/'')"
    by code_simp
  then have h2: "True \<longrightarrow> (\<forall>k \<in> set (markers ?st ''root/''). has_parent_path k)"
    by (simp only: list_all_iff simp_thms)
  have f: "fatal_errors ?st (rev (markers ?st ''root/''))
       = [S3Exception (OTHER_S3_ERROR 1), OtherException ''timeout'']"
    by code_simp
  have v1: "fst (loadPathPrefixMap True id ''root/'' ?st world0)
       = Inl (Raised (OtherException ''timeout''))"
    by code_simp
  have v2: "fst (loadPathPrefixMap True id ''root/'' (storage_of distinct_objects False) world0)
       = Inr [(''/a/'', ''root/x''), (''/b/'', ''root/y'')]"
    by code_simp
  from load_error_policy[where sched=rev and st="?st" and root="''root/''" and ab=True
      and w=world0, OF h1 h2]
  have "case fatal_errors ?st (rev (markers ?st ''root/'')) of
          [] \<Rightarrow> (\<exists>m w'. loadPathPrefixMap True rev ''root/'' ?st world0 = (Inr m, w')
                    \<and> set m \<subseteq> set (insertions ?st (markers ?st ''root/'')))
        | e # es \<Rightarrow> (\<exists>w'. loadPathPrefixMap True rev ''root/'' ?st world0 = (Inl (Raised e), w')
                    \<and> directory_map_size w' = directory_map_size world0
                    \<and> accesses w' = accesses world0 @ Iterate ''root/''
                         # map ReadObject (rev (markers ?st ''root/'')))"
    by (rule conjunct2)
  then have "\<exists>w'. loadPathPrefixMap True rev ''root/'' ?st world0
             = (Inl (Raised (S3Exception (OTHER_S3_ERROR 1))), w')
          \<and> directory_map_size w' = directory_map_size world0
          \<and> accesses w' = accesses world0 @ Iterate ''root/''
               # map ReadObject (rev (markers ?st ''root/''))"
    unfolding f by simp
  with h1 l f v1 v2 show ?thesis by (intro conjI)
qed

subsection \<open>Units of work, the parent path and the metric\<close>

lemma run_unit_not_abort:
  assumes "\<not> chassert ab (has_parent_path k)"
  shows "fst (run_unit ab st k s) \<noteq> Abort"
proof -
  obtain m w where s: "s = (m, w)" by (cases s)
  show ?thesis
  proof (cases "read_marker st k")
    case (Inl e)
    then show ?thesis by (simp add: s run_unit_def)
  next
    case (Inr o1)
    show ?thesis
    proof (cases o1)
      case None
      with Inr show ?thesis by (simp add: s run_unit_def)
    next
      case (Some lp)
      obtain m' lg where im: "insert_marker lp (parent_path k)
          (m, log_events (w\<lparr>accesses := accesses w @ [ReadObject k]\<rparr>)) = (m', lg)"
        by (cases "insert_marker lp (parent_path k)
          (m, log_events (w\<lparr>accesses := accesses w @ [ReadObject k]\<rparr>))")
      with Inr Some assms show ?thesis by (simp add: s run_unit_def Let_def)
    qed
  qed
qed

lemma run_unit_metric:
  "directory_map_size (snd (snd (run_unit ab st k s))) = directory_map_size (snd s)"
proof -
  obtain m w where s: "s = (m, w)" by (cases s)
  show ?thesis
  proof (cases "read_marker st k")
    case (Inl e)
    then show ?thesis by (simp add: s run_unit_def)
  next
    case (Inr o1)
    show ?thesis
    proof (cases o1)
      case None
      with Inr show ?thesis by (simp add: s run_unit_def)
    next
      case (Some lp)
      obtain m' lg where im: "insert_marker lp (parent_path k)
          (m, log_events (w\<lparr>accesses := accesses w @ [ReadObject k]\<rparr>)) = (m', lg)"
        by (cases "insert_marker lp (parent_path k)
          (m, log_events (w\<lparr>accesses := accesses w @ [ReadObject k]\<rparr>))")
      with Inr Some show ?thesis by (simp add: s run_unit_def Let_def)
    qed
  qed
qed

lemma dir_part_nonempty:
  "CHR ''/'' \<in> set key \<Longrightarrow> rev (dropWhile (\<lambda>c. c \<noteq> CHR ''/'') (rev key)) \<noteq> []"
  by (simp add: dropWhile_eq_Nil_conv)

lemma has_parent_path_separator:
  assumes "CHR ''/'' \<in> set key"
  shows "has_parent_path key"
proof -
  define dir where "dir = rev (dropWhile (\<lambda>c. c \<noteq> CHR ''/'') (rev key))"
  define stem where "stem = rev (dropWhile (\<lambda>c. c = CHR ''/'') (rev dir))"
  have d: "dir \<noteq> []" unfolding dir_def using assms by (rule dir_part_nonempty)
  have "parent_path key = (if stem = [] then dir else stem)"
    unfolding parent_path_def Let_def dir_def stem_def ..
  with d show ?thesis unfolding has_parent_path_def by (cases "stem = []") simp_all
qed

text \<open>
  C9. A key the loader selects (its file name is \<open>prefix.path\<close>) that contains a path
  separator has a parent path, so the assertion of line 78 holds for it and the unit of
  work for it never ends the program.
\<close>

theorem marker_key_has_parent_path:
  assumes "filename key = PREFIX_PATH_FILE_NAME"
    and "CHR ''/'' \<in> set key"
  shows "has_parent_path key \<and> \<not> chassert ab (has_parent_path key)
         \<and> fst (run_unit ab st key s) \<noteq> Abort"
proof -
  from assms(2) have hp: "has_parent_path key" by (rule has_parent_path_separator)
  then have nc: "\<not> chassert ab (has_parent_path key)" by (simp add: chassert_def)
  from run_unit_not_abort[OF nc] hp nc show ?thesis by simp
qed

lemma example_marker_filename: "filename ''root/x/prefix.path'' = ''prefix.path''"
  by code_simp

theorem marker_key_has_parent_path_witness:
  "filename ''root/x/prefix.path'' = PREFIX_PATH_FILE_NAME
   \<and> CHR ''/'' \<in> set ''root/x/prefix.path''
   \<and> has_parent_path ''root/x/prefix.path''
   \<and> \<not> chassert True (has_parent_path ''root/x/prefix.path'')
   \<and> fst (run_unit True (storage_of distinct_objects False) ''root/x/prefix.path'' ([], world0)) \<noteq> Abort
   \<and> parent_path ''root/x/prefix.path'' = ''root/x''"
proof -
  have h1: "filename ''root/x/prefix.path'' = PREFIX_PATH_FILE_NAME"
    unfolding PREFIX_PATH_FILE_NAME_def by (rule example_marker_filename)
  have h2: "CHR ''/'' \<in> set ''root/x/prefix.path''" by simp
  have v: "parent_path ''root/x/prefix.path'' = ''root/x''"
    by code_simp
  note c = marker_key_has_parent_path[OF h1 h2, of True "storage_of distinct_objects False" "([], world0)"]
  show ?thesis
    by (rule conjI[OF h1 conjI[OF h2 conjI[OF conjunct1[OF c] conjI[OF conjunct1[OF conjunct2[OF c]]
          conjI[OF conjunct2[OF conjunct2[OF c]] v]]]]])
qed

section \<open>Properties of construction and destruction\<close>

lemma run_units_metric:
  "directory_map_size (snd (snd (snd (run_units ab st ks first s)))) = directory_map_size (snd s)"
proof (induction ks arbitrary: first s)
  case Nil
  then show ?case by simp
next
  case (Cons k ks)
  obtain r s' where ru: "run_unit ab st k s = (r, s')" by (cases "run_unit ab st k s")
  with run_unit_metric[of ab st k s] have m: "directory_map_size (snd s') = directory_map_size (snd s)"
    by simp
  show ?case
    by (cases r) (simp_all add: ru m Cons.IH)
qed

lemma load_metric:
  assumes "loadPathPrefixMap ab sched root st w = (r, w')"
  shows "directory_map_size w' =
           directory_map_size w + (case r of Inr m \<Rightarrow> int (length m) | Inl e \<Rightarrow> 0)"
proof -
  let ?w1 = "w\<lparr>log_events := log_events w @ [Debug_Loading_metadata],
               accesses := accesses w @ [Iterate root]\<rparr>"
  let ?ks = "sched (filter (\<lambda>path. filename path = PREFIX_PATH_FILE_NAME) (iterate st root))"
  obtain a f m w2 where ru: "run_units ab st ?ks None ([], ?w1) = (a, f, m, w2)"
    by (cases "run_units ab st ?ks None ([], ?w1)") auto
  with run_units_metric[of ab st ?ks None "([], ?w1)"]
  have m: "directory_map_size w2 = directory_map_size w" by simp
  have l: "loadPathPrefixMap ab sched root st w =
      (if a then (Inl AssertionFailed, w2)
       else case f of
              Some e \<Rightarrow> (Inl (Raised e), w2)
            | None \<Rightarrow> (Inr m,
                w2\<lparr>log_events := log_events w2 @ [Debug_Loaded_metadata (length (iterate st root)) (length m)],
                   directory_map_size := directory_map_size w2 + int (length m)\<rparr>))"
    unfolding loadPathPrefixMap_def Let_def
    using ru by (cases a; cases f) simp_all
  show ?thesis
  proof (cases a)
    case True
    with assms l m show ?thesis by auto
  next
    case False
    with assms l m show ?thesis by (cases f) auto
  qed
qed

text \<open>
  C8. When the construction succeeds, the metric has been raised by the size of the Path
  Map of the new object, once, by the addition at the end of the load (no unit of work
  changes the metric); the destructor lowers it by the size of the Path Map, so that
  construction followed by destruction leaves the metric where it was.
\<close>

theorem attach_detach_metric:
  assumes "MetadataStorageFromPlainRewritableObjectStorage_ctor ab sched st w = (Inr this, w')"
  shows "directory_map_size w' = directory_map_size w + int (length (path_map this))
    \<and> directory_map_size (MetadataStorageFromPlainRewritableObjectStorage_dtor this w')
        = directory_map_size w
    \<and> (\<forall>ks first s. directory_map_size (snd (snd (snd (run_units ab st ks first s))))
          = directory_map_size (snd s))"
proof -
  obtain r w1 where l: "loadPathPrefixMap ab sched (getCommonKeyPrefix st) st w = (r, w1)"
    by (cases "loadPathPrefixMap ab sched (getCommonKeyPrefix st) st w")
  have "r = Inr (path_map this) \<and> w' = w1"
  proof (cases r)
    case (Inl e)
    with assms l show ?thesis
      by (simp add: MetadataStorageFromPlainRewritableObjectStorage_ctor_def)
  next
    case (Inr m)
    with assms l show ?thesis
      by (cases "isWriteOnce st")
         (auto simp: MetadataStorageFromPlainRewritableObjectStorage_ctor_def)
  qed
  with load_metric[OF l] have inc: "directory_map_size w' = directory_map_size w + int (length (path_map this))"
    by simp
  then have "directory_map_size (MetadataStorageFromPlainRewritableObjectStorage_dtor this w')
        = directory_map_size w"
    by (simp add: MetadataStorageFromPlainRewritableObjectStorage_dtor_def)
  with inc run_units_metric show ?thesis by blast
qed

lemma example_construction:
  "MetadataStorageFromPlainRewritableObjectStorage_ctor True rev (storage_of conflicting_objects False) world0
     = (Inr \<lparr>path_map = [(''/'', ''root/w''), (''/a/'', ''root/y'')], keys_generator = ''root/''\<rparr>,
        \<lparr>directory_map_size = 2,
         log_events = [Debug_Loading_metadata,
                       Warning_already_mapped ''/a/'' ''root/y'' ''root/x'',
                       Debug_Loaded_metadata 3 2],
         accesses = [Iterate ''root/'', ReadObject ''root/w/prefix.path'',
                     ReadObject ''root/y/prefix.path'', ReadObject ''root/x/prefix.path'']\<rparr>)"
  by code_simp

theorem attach_detach_metric_witness:
  "MetadataStorageFromPlainRewritableObjectStorage_ctor True rev (storage_of conflicting_objects False) world0
     = (Inr \<lparr>path_map = [(''/'', ''root/w''), (''/a/'', ''root/y'')], keys_generator = ''root/''\<rparr>,
        \<lparr>directory_map_size = 2,
         log_events = [Debug_Loading_metadata,
                       Warning_already_mapped ''/a/'' ''root/y'' ''root/x'',
                       Debug_Loaded_metadata 3 2],
         accesses = [Iterate ''root/'', ReadObject ''root/w/prefix.path'',
                     ReadObject ''root/y/prefix.path'', ReadObject ''root/x/prefix.path'']\<rparr>)
   \<and> directory_map_size (MetadataStorageFromPlainRewritableObjectStorage_dtor
         \<lparr>path_map = [(''/'', ''root/w''), (''/a/'', ''root/y'')], keys_generator = ''root/''\<rparr>
         \<lparr>directory_map_size = 2,
          log_events = [Debug_Loading_metadata,
                        Warning_already_mapped ''/a/'' ''root/y'' ''root/x'',
                        Debug_Loaded_metadata 3 2],
          accesses = [Iterate ''root/'', ReadObject ''root/w/prefix.path'',
                      ReadObject ''root/y/prefix.path'', ReadObject ''root/x/prefix.path'']\<rparr>)
       = directory_map_size world0"
  using attach_detach_metric[OF example_construction] example_construction
  by (intro conjI) (elim conjE, assumption)+

text \<open>
  C5. A write-once storage at the constructor: the key space is iterated and every marker
  is read before the constructor raises \<open>LOGICAL_ERROR\<close>; and when a marker read fails, the
  constructor raises the read failure and not \<open>LOGICAL_ERROR\<close>.
\<close>

theorem write_once_storage_is_scanned:
  "fst (MetadataStorageFromPlainRewritableObjectStorage_ctor True id
          (storage_of distinct_objects True) world0)
     = Inl (Raised (LOGICAL_ERROR (write_once_message ''s3_plain_rewritable'')))
   \<and> accesses (snd (MetadataStorageFromPlainRewritableObjectStorage_ctor True id
          (storage_of distinct_objects True) world0))
     = [Iterate ''root/'', ReadObject ''root/x/prefix.path'', ReadObject ''root/y/prefix.path'',
        ReadObject ''root/z/prefix.path'']
   \<and> fst (MetadataStorageFromPlainRewritableObjectStorage_ctor True id
          (storage_of failing_objects True) world0)
     = Inl (Raised (OtherException ''timeout''))"
  by code_simp

text \<open>
  C7. A write-once storage with two markers at the constructor: the constructor raises
  \<open>LOGICAL_ERROR\<close> and leaves the metric raised by two, the size of the Path Map loaded.
\<close>

theorem failed_construction_keeps_metric:
  "fst (MetadataStorageFromPlainRewritableObjectStorage_ctor True id
          (storage_of distinct_objects True) world0)
     = Inl (Raised (LOGICAL_ERROR (write_once_message ''s3_plain_rewritable'')))
   \<and> directory_map_size world0 = 0
   \<and> directory_map_size (snd (MetadataStorageFromPlainRewritableObjectStorage_ctor True id
          (storage_of distinct_objects True) world0)) = 2"
  by code_simp

end
